theory Spec2Isabelle
  imports Main "HOL-Library.Word"
begin

unbundle bit_operations_syntax

section \<open>Data model of \<open>src/cuda/z80_common.h\<close>\<close>

type_synonym u8 = "8 word"
type_synonym u16 = "16 word"
type_synonym u32 = "32 word"

subsection \<open>Flag bits\<close>

abbreviation (input) FLAG_C :: u8 where "FLAG_C \<equiv> 0x01"
abbreviation (input) FLAG_N :: u8 where "FLAG_N \<equiv> 0x02"
abbreviation (input) FLAG_P :: u8 where "FLAG_P \<equiv> 0x04"
abbreviation (input) FLAG_V :: u8 where "FLAG_V \<equiv> 0x04"
abbreviation (input) FLAG_3 :: u8 where "FLAG_3 \<equiv> 0x08"
abbreviation (input) FLAG_H :: u8 where "FLAG_H \<equiv> 0x10"
abbreviation (input) FLAG_5 :: u8 where "FLAG_5 \<equiv> 0x20"
abbreviation (input) FLAG_Z :: u8 where "FLAG_Z \<equiv> 0x40"
abbreviation (input) FLAG_S :: u8 where "FLAG_S \<equiv> 0x80"

subsection \<open>CPU state: \<open>uint8_t r[8]\<close> and \<open>uint16_t sp\<close>\<close>

record Z80State =
  r :: "u8 list"
  sp :: u16

abbreviation (input) REG_A :: nat where "REG_A \<equiv> 0"
abbreviation (input) REG_F :: nat where "REG_F \<equiv> 1"
abbreviation (input) REG_B :: nat where "REG_B \<equiv> 2"
abbreviation (input) REG_C :: nat where "REG_C \<equiv> 3"
abbreviation (input) REG_D :: nat where "REG_D \<equiv> 4"
abbreviation (input) REG_E :: nat where "REG_E \<equiv> 5"
abbreviation (input) REG_H :: nat where "REG_H \<equiv> 6"
abbreviation (input) REG_L :: nat where "REG_L \<equiv> 7"

text \<open>\<open>s.r[i] = v\<close> as a state update.\<close>

definition set_reg :: "Z80State \<Rightarrow> nat \<Rightarrow> u8 \<Rightarrow> Z80State" where
  "set_reg s i v = s\<lparr>r := (r s)[i := v]\<rparr>"

text \<open>A state as the struct declares it: the register array has its 8 entries.\<close>

definition wf_state :: "Z80State \<Rightarrow> bool" where
  "wf_state s = (length (r s) = 8)"

subsection \<open>Flag tables\<close>

text \<open>The three mutable 256-entry arrays \<open>h_sz53\<close>, \<open>h_sz53p\<close>, \<open>h_parity\<close>. They are
  file-level statics, so before \<open>init_tables\<close> runs they hold zeros.\<close>

record Tables =
  h_sz53 :: "u8 list"
  h_sz53p :: "u8 list"
  h_parity :: "u8 list"

definition static_tables :: Tables where
  "static_tables = \<lparr>h_sz53 = replicate 256 0, h_sz53p = replicate 256 0, h_parity = replicate 256 0\<rparr>"

definition wf_tables :: "Tables \<Rightarrow> bool" where
  "wf_tables T = (length (h_sz53 T) = 256 \<and> length (h_sz53p T) = 256 \<and> length (h_parity T) = 256)"

definition h_halfcarry_add :: "u8 list" where
  "h_halfcarry_add = [0, FLAG_H, FLAG_H, FLAG_H, 0, 0, 0, FLAG_H]"

definition h_halfcarry_sub :: "u8 list" where
  "h_halfcarry_sub = [0, 0, FLAG_H, 0, FLAG_H, 0, FLAG_H, FLAG_H]"

definition h_overflow_add :: "u8 list" where
  "h_overflow_add = [0, 0, 0, FLAG_V, FLAG_V, 0, 0, 0]"

definition h_overflow_sub :: "u8 list" where
  "h_overflow_sub = [0, FLAG_V, 0, 0, 0, 0, FLAG_V, 0]"

text \<open>The inner loop of \<open>init_tables\<close>:
  \<open>for (int k = 0; k < 8; k++) { p ^= j & 1; j >>= 1; }\<close>, returning \<open>p\<close>.\<close>

function parity_loop :: "nat \<Rightarrow> u8 \<Rightarrow> u8 \<Rightarrow> u8" where
  "parity_loop k p j =
     (if k < 8 then parity_loop (k + 1) (p XOR (j AND 1)) (drop_bit 1 j) else p)"
  by pat_completeness auto
termination
  by (relation "measure (\<lambda>(k, p, j). 8 - k)") auto

text \<open>One pass of the outer loop body for index \<open>i\<close>.\<close>

definition init_tables_body :: "nat \<Rightarrow> Tables \<Rightarrow> Tables" where
  "init_tables_body i T =
     (let T1 = T\<lparr>h_sz53 := (h_sz53 T)[i := (of_nat i :: u8) AND (FLAG_3 OR FLAG_5 OR FLAG_S)]\<rparr>;
          j = (of_nat i :: u8);
          p = parity_loop 0 0 j;
          T2 = T1\<lparr>h_parity := (h_parity T1)[i := (if p = 0 then FLAG_P else 0)]\<rparr>
      in T2\<lparr>h_sz53p := (h_sz53p T2)[i := (h_sz53 T2 ! i) OR (h_parity T2 ! i)]\<rparr>)"

text \<open>\<open>for (int i = 0; i < 256; i++) { ... }\<close>\<close>

function init_tables_loop :: "nat \<Rightarrow> Tables \<Rightarrow> Tables" where
  "init_tables_loop i T =
     (if i < 256 then init_tables_loop (i + 1) (init_tables_body i T) else T)"
  by pat_completeness auto
termination
  by (relation "measure (\<lambda>(i, T). 256 - i)") auto

definition init_tables :: "Tables \<Rightarrow> Tables" where
  "init_tables T =
     (let T1 = init_tables_loop 0 T;
          T2 = T1\<lparr>h_sz53 := (h_sz53 T1)[0 := (h_sz53 T1 ! 0) OR FLAG_Z]\<rparr>
      in T2\<lparr>h_sz53p := (h_sz53p T2)[0 := (h_sz53p T2 ! 0) OR FLAG_Z]\<rparr>)"

text \<open>The tables every instruction reads once the builder has run on the zeroed statics.\<close>

definition built_tables :: Tables where
  "built_tables = init_tables static_tables"

text \<open>Number of one-bits of a byte.\<close>

definition popcount8 :: "u8 \<Rightarrow> nat" where
  "popcount8 v = length (filter (bit v) [0..<8])"


subsection \<open>Register mapping tables\<close>

definition LD_FULL_SRC_H :: "nat list" where
  "LD_FULL_SRC_H =
     [REG_B, REG_C, REG_D, REG_E, REG_H, REG_L, REG_A,
      REG_A, REG_B, REG_C, REG_D, REG_E, REG_H, REG_L,
      REG_A, REG_B, REG_C, REG_D, REG_E, REG_H, REG_L,
      REG_A, REG_B, REG_C, REG_D, REG_E, REG_H, REG_L,
      REG_A, REG_B, REG_C, REG_D, REG_E, REG_H, REG_L,
      REG_A, REG_B, REG_C, REG_D, REG_E, REG_H, REG_L,
      REG_A, REG_B, REG_C, REG_D, REG_E, REG_H, REG_L]"

definition LD_DST_H :: "nat list" where
  "LD_DST_H = [REG_A, REG_B, REG_C, REG_D, REG_E, REG_H, REG_L]"

definition ALU_SRC_H :: "nat list" where
  "ALU_SRC_H = [REG_B, REG_C, REG_D, REG_E, REG_H, REG_L, REG_A]"

definition CB_REG_H :: "nat list" where
  "CB_REG_H = [REG_A, REG_B, REG_C, REG_D, REG_E, REG_H, REG_L]"

definition IMM_REG_H :: "nat list" where
  "IMM_REG_H = [REG_A, REG_B, REG_C, REG_D, REG_E, REG_H, REG_L]"

definition INCDEC_REG_H :: "nat list" where
  "INCDEC_REG_H = [REG_A, REG_B, REG_C, REG_D, REG_E, REG_H, REG_L]"

text \<open>A read \<open>t[i]\<close> of a fixed-size array with a computed \<open>int\<close> index. C++ leaves a read
  outside the array undefined; the model makes it the value \<open>None\<close>.\<close>

definition arr_at :: "'a list \<Rightarrow> int \<Rightarrow> 'a option" where
  "arr_at t i = (if 0 \<le> i \<and> i < int (length t) then Some (t ! nat i) else None)"

section \<open>ALU engine\<close>

definition bsel_h :: "bool \<Rightarrow> u8 \<Rightarrow> u8 \<Rightarrow> u8" where
  "bsel_h cond a b = (if cond then a else b)"

text \<open>The carry-trick index \<open>((A & 0x88) >> 3) | ((val & 0x88) >> 2) | ((r & 0x88) >> 1)\<close>,
  stored in a \<open>uint8_t\<close>; \<open>res\<close> is the widened 16-bit result.\<close>

definition lookup8 :: "u8 \<Rightarrow> u8 \<Rightarrow> u16 \<Rightarrow> u8" where
  "lookup8 a val res =
     drop_bit 3 (a AND 0x88) OR drop_bit 2 (val AND 0x88) OR ucast (drop_bit 1 (res AND 0x88))"

definition h_alu_add :: "Tables \<Rightarrow> Z80State \<Rightarrow> u8 \<Rightarrow> Z80State" where
  "h_alu_add T s val =
     (let res = (ucast (r s ! REG_A) :: u16) + ucast val;
          lookup = lookup8 (r s ! REG_A) val res;
          s1 = set_reg s REG_A (ucast res)
      in set_reg s1 REG_F
           (bsel_h (res AND 0x100 \<noteq> 0) FLAG_C 0 OR h_halfcarry_add ! unat (lookup AND 0x07) OR
            h_overflow_add ! unat (drop_bit 4 lookup) OR h_sz53 T ! unat (r s1 ! REG_A)))"

definition h_alu_adc :: "Tables \<Rightarrow> Z80State \<Rightarrow> u8 \<Rightarrow> Z80State" where
  "h_alu_adc T s val =
     (let res = (ucast (r s ! REG_A) :: u16) + ucast val + ucast ((r s ! REG_F) AND FLAG_C);
          lookup = lookup8 (r s ! REG_A) val res;
          s1 = set_reg s REG_A (ucast res)
      in set_reg s1 REG_F
           (bsel_h (res AND 0x100 \<noteq> 0) FLAG_C 0 OR h_halfcarry_add ! unat (lookup AND 0x07) OR
            h_overflow_add ! unat (drop_bit 4 lookup) OR h_sz53 T ! unat (r s1 ! REG_A)))"

definition h_alu_sub :: "Tables \<Rightarrow> Z80State \<Rightarrow> u8 \<Rightarrow> Z80State" where
  "h_alu_sub T s val =
     (let res = (ucast (r s ! REG_A) :: u16) - ucast val;
          lookup = lookup8 (r s ! REG_A) val res;
          s1 = set_reg s REG_A (ucast res)
      in set_reg s1 REG_F
           (bsel_h (res AND 0x100 \<noteq> 0) FLAG_C 0 OR FLAG_N OR h_halfcarry_sub ! unat (lookup AND 0x07) OR
            h_overflow_sub ! unat (drop_bit 4 lookup) OR h_sz53 T ! unat (r s1 ! REG_A)))"

definition h_alu_sbc :: "Tables \<Rightarrow> Z80State \<Rightarrow> u8 \<Rightarrow> Z80State" where
  "h_alu_sbc T s val =
     (let res = (ucast (r s ! REG_A) :: u16) - ucast val - ucast ((r s ! REG_F) AND FLAG_C);
          lookup = lookup8 (r s ! REG_A) val res;
          s1 = set_reg s REG_A (ucast res)
      in set_reg s1 REG_F
           (bsel_h (res AND 0x100 \<noteq> 0) FLAG_C 0 OR FLAG_N OR h_halfcarry_sub ! unat (lookup AND 0x07) OR
            h_overflow_sub ! unat (drop_bit 4 lookup) OR h_sz53 T ! unat (r s1 ! REG_A)))"

definition h_alu_and :: "Tables \<Rightarrow> Z80State \<Rightarrow> u8 \<Rightarrow> Z80State" where
  "h_alu_and T s val =
     (let s1 = set_reg s REG_A ((r s ! REG_A) AND val)
      in set_reg s1 REG_F (FLAG_H OR h_sz53p T ! unat (r s1 ! REG_A)))"

definition h_alu_xor :: "Tables \<Rightarrow> Z80State \<Rightarrow> u8 \<Rightarrow> Z80State" where
  "h_alu_xor T s val =
     (let s1 = set_reg s REG_A ((r s ! REG_A) XOR val)
      in set_reg s1 REG_F (h_sz53p T ! unat (r s1 ! REG_A)))"

definition h_alu_or :: "Tables \<Rightarrow> Z80State \<Rightarrow> u8 \<Rightarrow> Z80State" where
  "h_alu_or T s val =
     (let s1 = set_reg s REG_A ((r s ! REG_A) OR val)
      in set_reg s1 REG_F (h_sz53p T ! unat (r s1 ! REG_A)))"

definition h_alu_cp :: "Z80State \<Rightarrow> u8 \<Rightarrow> Z80State" where
  "h_alu_cp s val =
     (let res = (ucast (r s ! REG_A) :: u16) - ucast val;
          lookup = lookup8 (r s ! REG_A) val res
      in set_reg s REG_F
           (bsel_h (res AND 0x100 \<noteq> 0) FLAG_C (bsel_h (res \<noteq> 0) 0 FLAG_Z) OR FLAG_N OR
            h_halfcarry_sub ! unat (lookup AND 0x07) OR h_overflow_sub ! unat (drop_bit 4 lookup) OR
            (val AND (FLAG_3 OR FLAG_5)) OR ucast (res AND ucast FLAG_S)))"

definition h_alu_inc :: "Tables \<Rightarrow> Z80State \<Rightarrow> nat \<Rightarrow> Z80State" where
  "h_alu_inc T s reg =
     (let s1 = set_reg s reg (r s ! reg + 1)
      in set_reg s1 REG_F
           (((r s1 ! REG_F) AND FLAG_C) OR bsel_h (r s1 ! reg = 0x80) FLAG_V 0 OR
            bsel_h ((r s1 ! reg) AND 0x0F \<noteq> 0) 0 FLAG_H OR h_sz53 T ! unat (r s1 ! reg)))"

definition h_alu_dec :: "Tables \<Rightarrow> Z80State \<Rightarrow> nat \<Rightarrow> Z80State" where
  "h_alu_dec T s reg =
     (let s1 = set_reg s REG_F
                 (((r s ! REG_F) AND FLAG_C) OR bsel_h ((r s ! reg) AND 0x0F \<noteq> 0) 0 FLAG_H OR FLAG_N);
          s2 = set_reg s1 reg (r s1 ! reg - 1)
      in set_reg s2 REG_F
           ((r s2 ! REG_F) OR (bsel_h (r s2 ! reg = 0x7F) FLAG_V 0 OR h_sz53 T ! unat (r s2 ! reg))))"


section \<open>Bit, rotate and shift engine\<close>

text \<open>Each \<open>h_cb_*\<close> function writes F through the state reference and returns the new
  value of its by-value argument \<open>v\<close>: the model returns the pair.\<close>

definition h_cb_rlc :: "Tables \<Rightarrow> Z80State \<Rightarrow> u8 \<Rightarrow> Z80State \<times> u8" where
  "h_cb_rlc T s v =
     (let v1 = push_bit 1 v OR drop_bit 7 v
      in (set_reg s REG_F ((v1 AND FLAG_C) OR h_sz53p T ! unat v1), v1))"

definition h_cb_rrc :: "Tables \<Rightarrow> Z80State \<Rightarrow> u8 \<Rightarrow> Z80State \<times> u8" where
  "h_cb_rrc T s v =
     (let s1 = set_reg s REG_F (v AND FLAG_C);
          v1 = drop_bit 1 v OR push_bit 7 v
      in (set_reg s1 REG_F ((r s1 ! REG_F) OR h_sz53p T ! unat v1), v1))"

definition h_cb_rl :: "Tables \<Rightarrow> Z80State \<Rightarrow> u8 \<Rightarrow> Z80State \<times> u8" where
  "h_cb_rl T s v =
     (let old = v;
          v1 = push_bit 1 v OR ((r s ! REG_F) AND FLAG_C)
      in (set_reg s REG_F (drop_bit 7 old OR h_sz53p T ! unat v1), v1))"

definition h_cb_rr :: "Tables \<Rightarrow> Z80State \<Rightarrow> u8 \<Rightarrow> Z80State \<times> u8" where
  "h_cb_rr T s v =
     (let old = v;
          v1 = drop_bit 1 v OR push_bit 7 (r s ! REG_F)
      in (set_reg s REG_F ((old AND FLAG_C) OR h_sz53p T ! unat v1), v1))"

definition h_cb_sla :: "Tables \<Rightarrow> Z80State \<Rightarrow> u8 \<Rightarrow> Z80State \<times> u8" where
  "h_cb_sla T s v =
     (let s1 = set_reg s REG_F (drop_bit 7 v);
          v1 = push_bit 1 v
      in (set_reg s1 REG_F ((r s1 ! REG_F) OR h_sz53p T ! unat v1), v1))"

definition h_cb_sra :: "Tables \<Rightarrow> Z80State \<Rightarrow> u8 \<Rightarrow> Z80State \<times> u8" where
  "h_cb_sra T s v =
     (let s1 = set_reg s REG_F (v AND FLAG_C);
          v1 = (v AND 0x80) OR drop_bit 1 v
      in (set_reg s1 REG_F ((r s1 ! REG_F) OR h_sz53p T ! unat v1), v1))"

definition h_cb_srl :: "Tables \<Rightarrow> Z80State \<Rightarrow> u8 \<Rightarrow> Z80State \<times> u8" where
  "h_cb_srl T s v =
     (let s1 = set_reg s REG_F (v AND FLAG_C);
          v1 = drop_bit 1 v
      in (set_reg s1 REG_F ((r s1 ! REG_F) OR h_sz53p T ! unat v1), v1))"

definition h_cb_sll :: "Tables \<Rightarrow> Z80State \<Rightarrow> u8 \<Rightarrow> Z80State \<times> u8" where
  "h_cb_sll T s v =
     (let s1 = set_reg s REG_F (drop_bit 7 v);
          v1 = push_bit 1 v OR 0x01
      in (set_reg s1 REG_F ((r s1 ! REG_F) OR h_sz53p T ! unat v1), v1))"

text \<open>\<open>s.r[reg] = h_cb_op(s, s.r[reg])\<close>: the argument is read, the call updates F, the
  returned value is stored.\<close>

definition cb_store :: "(Z80State \<Rightarrow> u8 \<Rightarrow> Z80State \<times> u8) \<Rightarrow> Z80State \<Rightarrow> nat \<Rightarrow> Z80State" where
  "cb_store f s reg = (case f s (r s ! reg) of (s1, v) \<Rightarrow> set_reg s1 reg v)"

definition h_exec_bit :: "Z80State \<Rightarrow> u8 \<Rightarrow> int \<Rightarrow> Z80State" where
  "h_exec_bit s val b =
     (let s1 = set_reg s REG_F (((r s ! REG_F) AND FLAG_C) OR FLAG_H OR (val AND (FLAG_3 OR FLAG_5)));
          s2 = (if (ucast val :: u32) AND push_bit (nat b) 1 = 0
                then set_reg s1 REG_F ((r s1 ! REG_F) OR (FLAG_P OR FLAG_Z)) else s1)
      in if b = 7 \<and> val AND 0x80 \<noteq> 0 then set_reg s2 REG_F ((r s2 ! REG_F) OR FLAG_S) else s2)"

section \<open>16-bit and miscellaneous engine\<close>

definition h_exec_daa :: "Tables \<Rightarrow> Z80State \<Rightarrow> Z80State" where
  "h_exec_daa T s =
     (let add0 = (0 :: u8);
          carry0 = (r s ! REG_F) AND FLAG_C;
          add1 = (if (r s ! REG_F) AND FLAG_H \<noteq> 0 \<or> (r s ! REG_A) AND 0x0F > 9 then 6 else add0);
          add2 = (if carry0 \<noteq> 0 \<or> r s ! REG_A > 0x99 then add1 OR 0x60 else add1);
          carry1 = (if r s ! REG_A > 0x99 then FLAG_C else carry0);
          s1 = (if (r s ! REG_F) AND FLAG_N \<noteq> 0 then h_alu_sub T s add2 else h_alu_add T s add2)
      in set_reg s1 REG_F
           (((r s1 ! REG_F) AND NOT (FLAG_C OR FLAG_P)) OR carry1 OR h_parity T ! unat (r s1 ! REG_A)))"

text \<open>\<open>((uint16_t)s.r[REG_H] << 8) | s.r[REG_L]\<close>\<close>

definition pair16 :: "u8 \<Rightarrow> u8 \<Rightarrow> u16" where
  "pair16 hi lo = push_bit 8 (ucast hi) OR ucast lo"

definition h_exec_add_hl :: "Z80State \<Rightarrow> u16 \<Rightarrow> Z80State" where
  "h_exec_add_hl s val =
     (let hl = pair16 (r s ! REG_H) (r s ! REG_L);
          result = (ucast hl :: u32) + ucast val;
          hc = (hl AND 0x0FFF) + (val AND 0x0FFF);
          s1 = set_reg s REG_F
                 (((r s ! REG_F) AND (FLAG_S OR FLAG_Z OR FLAG_P)) OR
                  bsel_h (hc AND 0x1000 \<noteq> 0) FLAG_H 0 OR bsel_h (result AND 0x10000 \<noteq> 0) FLAG_C 0 OR
                  ((ucast (drop_bit 8 result) :: u8) AND (FLAG_3 OR FLAG_5)));
          s2 = set_reg s1 REG_H (ucast (drop_bit 8 result))
      in set_reg s2 REG_L (ucast result))"

text \<open>The 16-bit carry-trick index, from bits 11 and 15.\<close>

definition lookup16 :: "u16 \<Rightarrow> u16 \<Rightarrow> u32 \<Rightarrow> u8" where
  "lookup16 hl val result =
     ucast (drop_bit 11 (ucast (hl AND 0x8800) :: u32) OR drop_bit 10 (ucast (val AND 0x8800) :: u32) OR
            drop_bit 9 (result AND 0x8800))"

definition h_exec_adc_hl :: "Z80State \<Rightarrow> u16 \<Rightarrow> Z80State" where
  "h_exec_adc_hl s val =
     (let hl = pair16 (r s ! REG_H) (r s ! REG_L);
          carry = (ucast ((r s ! REG_F) AND FLAG_C) :: u32);
          result = (ucast hl :: u32) + ucast val + carry;
          lookup = lookup16 hl val result;
          s1 = set_reg s REG_H (ucast (drop_bit 8 result));
          s2 = set_reg s1 REG_L (ucast result)
      in set_reg s2 REG_F
           (bsel_h (result AND 0x10000 \<noteq> 0) FLAG_C 0 OR h_overflow_add ! unat (drop_bit 4 lookup) OR
            ((r s2 ! REG_H) AND (FLAG_3 OR FLAG_5 OR FLAG_S)) OR h_halfcarry_add ! unat (lookup AND 0x07) OR
            bsel_h ((r s2 ! REG_H) OR (r s2 ! REG_L) \<noteq> 0) 0 FLAG_Z))"

definition h_exec_sbc_hl :: "Z80State \<Rightarrow> u16 \<Rightarrow> Z80State" where
  "h_exec_sbc_hl s val =
     (let hl = pair16 (r s ! REG_H) (r s ! REG_L);
          carry = (ucast ((r s ! REG_F) AND FLAG_C) :: u32);
          result = (ucast hl :: u32) - ucast val - carry;
          lookup = lookup16 hl val result;
          s1 = set_reg s REG_H (ucast (drop_bit 8 result));
          s2 = set_reg s1 REG_L (ucast result)
      in set_reg s2 REG_F
           (bsel_h (result AND 0x10000 \<noteq> 0) FLAG_C 0 OR FLAG_N OR h_overflow_sub ! unat (drop_bit 4 lookup) OR
            ((r s2 ! REG_H) AND (FLAG_3 OR FLAG_5 OR FLAG_S)) OR h_halfcarry_sub ! unat (lookup AND 0x07) OR
            bsel_h ((r s2 ! REG_H) OR (r s2 ! REG_L) \<noteq> 0) 0 FLAG_Z))"

text \<open>The \<open>switch (pair)\<close> of \<open>h_get_pair\<close> has no default case: it falls to \<open>return 0\<close>.\<close>

definition h_get_pair :: "Z80State \<Rightarrow> int \<Rightarrow> u16" where
  "h_get_pair s pair =
     (if pair = 0 then pair16 (r s ! REG_B) (r s ! REG_C)
      else if pair = 1 then pair16 (r s ! REG_D) (r s ! REG_E)
      else if pair = 2 then pair16 (r s ! REG_H) (r s ! REG_L)
      else if pair = 3 then sp s
      else 0)"

text \<open>The \<open>switch (pair)\<close> of \<open>h_set_pair\<close> does nothing for any other value.\<close>

definition h_set_pair :: "Z80State \<Rightarrow> int \<Rightarrow> u16 \<Rightarrow> Z80State" where
  "h_set_pair s pair val =
     (if pair = 0 then set_reg (set_reg s REG_B (ucast (drop_bit 8 val))) REG_C (ucast val)
      else if pair = 1 then set_reg (set_reg s REG_D (ucast (drop_bit 8 val))) REG_E (ucast val)
      else if pair = 2 then set_reg (set_reg s REG_H (ucast (drop_bit 8 val))) REG_L (ucast val)
      else if pair = 3 then s\<lparr>sp := val\<rparr>
      else s)"


section \<open>Opcode dispatcher\<close>

subsection \<open>Opcode range constants\<close>

abbreviation (input) OP_RLCA :: int where "OP_RLCA \<equiv> 134"
abbreviation (input) OP_RRCA :: int where "OP_RRCA \<equiv> 135"
abbreviation (input) OP_RLA :: int where "OP_RLA \<equiv> 136"
abbreviation (input) OP_RRA :: int where "OP_RRA \<equiv> 137"
abbreviation (input) OP_DAA :: int where "OP_DAA \<equiv> 138"
abbreviation (input) OP_CPL :: int where "OP_CPL \<equiv> 139"
abbreviation (input) OP_SCF :: int where "OP_SCF \<equiv> 140"
abbreviation (input) OP_CCF :: int where "OP_CCF \<equiv> 141"
abbreviation (input) OP_NEG :: int where "OP_NEG \<equiv> 142"
abbreviation (input) OP_NOP :: int where "OP_NOP \<equiv> 143"
abbreviation (input) OP_CB_START :: int where "OP_CB_START \<equiv> 144"
abbreviation (input) OP_SLL_A :: int where "OP_SLL_A \<equiv> 193"
abbreviation (input) OP_SLL_B_START :: int where "OP_SLL_B_START \<equiv> 194"
abbreviation (input) OP_BIT_START :: int where "OP_BIT_START \<equiv> 200"
abbreviation (input) OP_RES_START :: int where "OP_RES_START \<equiv> 256"
abbreviation (input) OP_SET_START :: int where "OP_SET_START \<equiv> 312"
abbreviation (input) OP_16INC_START :: int where "OP_16INC_START \<equiv> 368"
abbreviation (input) OP_ADD_HL_START :: int where "OP_ADD_HL_START \<equiv> 376"
abbreviation (input) OP_EX_DE_HL :: int where "OP_EX_DE_HL \<equiv> 380"
abbreviation (input) OP_LD_SP_HL :: int where "OP_LD_SP_HL \<equiv> 381"
abbreviation (input) OP_LD_RR_NN_START :: int where "OP_LD_RR_NN_START \<equiv> 382"
abbreviation (input) OP_ADC_HL_START :: int where "OP_ADC_HL_START \<equiv> 386"
abbreviation (input) OP_SBC_HL_START :: int where "OP_SBC_HL_START \<equiv> 390"
abbreviation (input) OP_COUNT :: int where "OP_COUNT \<equiv> 394"

subsection \<open>The branches of \<open>h_exec_instruction\<close>\<close>

text \<open>One constructor per \<open>if (...) { ...; return; }\<close> statement of \<open>h_exec_instruction\<close>, in
  the order of the source.\<close>

datatype family =
    B_LD_RR | B_LD_RN | B_ALU | B_INC | B_DEC
  | B_RLCA | B_RRCA | B_RLA | B_RRA | B_DAA | B_CPL | B_SCF | B_CCF | B_NEG | B_NOP
  | B_CB | B_SLL_A | B_SLL_B | B_BIT | B_RES | B_SET
  | B_16INC | B_ADD_HL | B_EX_DE_HL | B_LD_SP_HL | B_LD_RR_NN | B_ADC_HL | B_SBC_HL

text \<open>The guards of the if-chain, tested in the order of the source; the opcode is a
  \<open>uint16_t\<close> and is compared as an \<open>int\<close>. \<open>None\<close> is the end of the function body, reached
  when no guard holds.\<close>

definition h_dispatch :: "u16 \<Rightarrow> family option" where
  "h_dispatch op =
     (let n = uint op in
      if n < 49 then Some B_LD_RR
      else if n < 56 then Some B_LD_RN
      else if n < 120 then Some B_ALU
      else if n < 127 then Some B_INC
      else if n < 134 then Some B_DEC
      else if n = OP_RLCA then Some B_RLCA
      else if n = OP_RRCA then Some B_RRCA
      else if n = OP_RLA then Some B_RLA
      else if n = OP_RRA then Some B_RRA
      else if n = OP_DAA then Some B_DAA
      else if n = OP_CPL then Some B_CPL
      else if n = OP_SCF then Some B_SCF
      else if n = OP_CCF then Some B_CCF
      else if n = OP_NEG then Some B_NEG
      else if n = OP_NOP then Some B_NOP
      else if n \<ge> OP_CB_START \<and> n \<le> 192 then Some B_CB
      else if n = OP_SLL_A then Some B_SLL_A
      else if n \<ge> OP_SLL_B_START \<and> n < 200 then Some B_SLL_B
      else if n \<ge> OP_BIT_START \<and> n < OP_RES_START then Some B_BIT
      else if n \<ge> OP_RES_START \<and> n < OP_SET_START then Some B_RES
      else if n \<ge> OP_SET_START \<and> n < OP_16INC_START then Some B_SET
      else if n \<ge> OP_16INC_START \<and> n < OP_ADD_HL_START then Some B_16INC
      else if n \<ge> OP_ADD_HL_START \<and> n < OP_EX_DE_HL then Some B_ADD_HL
      else if n = OP_EX_DE_HL then Some B_EX_DE_HL
      else if n = OP_LD_SP_HL then Some B_LD_SP_HL
      else if n \<ge> OP_LD_RR_NN_START \<and> n < OP_ADC_HL_START then Some B_LD_RR_NN
      else if n \<ge> OP_ADC_HL_START \<and> n < OP_SBC_HL_START then Some B_ADC_HL
      else if n \<ge> OP_SBC_HL_START \<and> n < OP_COUNT then Some B_SBC_HL
      else None)"

text \<open>The \<open>pair\<close> argument each 16-bit branch passes to \<open>h_get_pair\<close> and \<open>h_set_pair\<close>.\<close>

definition h_pair_index :: "family \<Rightarrow> int \<Rightarrow> int" where
  "h_pair_index b n =
     (case b of
        B_16INC \<Rightarrow> (n - OP_16INC_START) mod 4
      | B_ADD_HL \<Rightarrow> n - OP_ADD_HL_START
      | B_LD_RR_NN \<Rightarrow> n - OP_LD_RR_NN_START
      | B_ADC_HL \<Rightarrow> n - OP_ADC_HL_START
      | B_SBC_HL \<Rightarrow> n - OP_SBC_HL_START
      | _ \<Rightarrow> 0)"

subsection \<open>The operation a branch ran\<close>

text \<open>The source has no value that says which operation a call of \<open>h_exec_instruction\<close> ran,
  or whether it ran one at all: a \<open>switch\<close> without a default and the end of the if-chain both
  leave the state as it was. The model adds that value as ghost data: every branch body
  returns, beside the new state, the list of the operations it invoked, each with the bit or
  pair index it was given. \<open>h_exec_instruction\<close> drops the list.\<close>

datatype engine =
    E_LD_RR | E_LD_RN
  | E_ADD | E_ADC | E_SUB | E_SBC | E_AND | E_XOR | E_OR | E_CP
  | E_INC | E_DEC
  | E_RLCA | E_RRCA | E_RLA | E_RRA | E_DAA | E_CPL | E_SCF | E_CCF | E_NEG | E_NOP
  | E_RLC | E_RRC | E_RL | E_RR | E_SLA | E_SRA | E_SRL | E_SLL
  | E_BIT int | E_RES int | E_SET int
  | E_16INC int | E_ADD_HL int | E_EX_DE_HL | E_LD_SP_HL | E_LD_RR_NN int | E_ADC_HL int | E_SBC_HL int

text \<open>A branch body that invoked the one operation \<open>e\<close> and left the state \<open>s\<close>.\<close>

definition ran :: "engine \<Rightarrow> Z80State \<Rightarrow> (engine list \<times> Z80State) option" where
  "ran e s = Some ([e], s)"

text \<open>The \<open>switch (alu_op)\<close> of the ALU branch; it has no default case, so for any other
  selector no operation runs.\<close>

definition alu_switch :: "Tables \<Rightarrow> Z80State \<Rightarrow> int \<Rightarrow> u8 \<Rightarrow> engine list \<times> Z80State" where
  "alu_switch T s alu_op val =
     (if alu_op = 0 then ([E_ADD], h_alu_add T s val) else if alu_op = 1 then ([E_ADC], h_alu_adc T s val)
      else if alu_op = 2 then ([E_SUB], h_alu_sub T s val) else if alu_op = 3 then ([E_SBC], h_alu_sbc T s val)
      else if alu_op = 4 then ([E_AND], h_alu_and T s val) else if alu_op = 5 then ([E_XOR], h_alu_xor T s val)
      else if alu_op = 6 then ([E_OR], h_alu_or T s val) else if alu_op = 7 then ([E_CP], h_alu_cp s val)
      else ([], s))"

text \<open>The \<open>switch (cb_op)\<close> of the CB branch; it has no default case, so for any other
  selector no operation runs.\<close>

definition cb_switch :: "Tables \<Rightarrow> Z80State \<Rightarrow> int \<Rightarrow> nat \<Rightarrow> engine list \<times> Z80State" where
  "cb_switch T s cb_op reg =
     (if cb_op = 0 then ([E_RLC], cb_store (h_cb_rlc T) s reg)
      else if cb_op = 1 then ([E_RRC], cb_store (h_cb_rrc T) s reg)
      else if cb_op = 2 then ([E_RL], cb_store (h_cb_rl T) s reg)
      else if cb_op = 3 then ([E_RR], cb_store (h_cb_rr T) s reg)
      else if cb_op = 4 then ([E_SLA], cb_store (h_cb_sla T) s reg)
      else if cb_op = 5 then ([E_SRA], cb_store (h_cb_sra T) s reg)
      else if cb_op = 6 then ([E_SRL], cb_store (h_cb_srl T) s reg)
      else ([], s))"

text \<open>The body of each branch, with \<open>n\<close> the opcode as an \<open>int\<close>. Reads of the register
  mapping tables go through \<open>arr_at\<close>, so an index outside a table makes the result \<open>None\<close>.
  On every path the dispatcher takes the dividends are non-negative, where the truncating
  \<open>/\<close> and \<open>%\<close> of C++ are \<open>div\<close> and \<open>mod\<close>.\<close>

definition h_exec_family :: "Tables \<Rightarrow> Z80State \<Rightarrow> int \<Rightarrow> u16 \<Rightarrow> family \<Rightarrow> (engine list \<times> Z80State) option" where
  "h_exec_family T s n imm b =
     (case b of
        B_LD_RR \<Rightarrow>
          (case arr_at LD_DST_H (n div 7) of None \<Rightarrow> None | Some dst \<Rightarrow>
            (case arr_at LD_FULL_SRC_H n of None \<Rightarrow> None | Some src \<Rightarrow>
               ran E_LD_RR (set_reg s dst (r s ! src))))
      | B_LD_RN \<Rightarrow>
          (case arr_at IMM_REG_H (n - 49) of None \<Rightarrow> None | Some reg \<Rightarrow>
             ran E_LD_RN (set_reg s reg (ucast imm)))
      | B_ALU \<Rightarrow>
          (let alu_op = (n - 56) div 8;
               src_idx = (n - 56) mod 8
           in if src_idx < 7
              then (case arr_at ALU_SRC_H src_idx of None \<Rightarrow> None | Some src \<Rightarrow>
                      Some (alu_switch T s alu_op (r s ! src)))
              else Some (alu_switch T s alu_op (ucast imm)))
      | B_INC \<Rightarrow>
          (case arr_at INCDEC_REG_H (n - 120) of None \<Rightarrow> None | Some reg \<Rightarrow>
             ran E_INC (h_alu_inc T s reg))
      | B_DEC \<Rightarrow>
          (case arr_at INCDEC_REG_H (n - 127) of None \<Rightarrow> None | Some reg \<Rightarrow>
             ran E_DEC (h_alu_dec T s reg))
      | B_RLCA \<Rightarrow>
          (let s1 = set_reg s REG_A (push_bit 1 (r s ! REG_A) OR drop_bit 7 (r s ! REG_A))
           in ran E_RLCA (set_reg s1 REG_F
                (((r s1 ! REG_F) AND (FLAG_P OR FLAG_Z OR FLAG_S)) OR
                 ((r s1 ! REG_A) AND (FLAG_C OR FLAG_3 OR FLAG_5)))))
      | B_RRCA \<Rightarrow>
          (let s1 = set_reg s REG_F
                      (((r s ! REG_F) AND (FLAG_P OR FLAG_Z OR FLAG_S)) OR ((r s ! REG_A) AND FLAG_C));
               s2 = set_reg s1 REG_A (drop_bit 1 (r s1 ! REG_A) OR push_bit 7 (r s1 ! REG_A))
           in ran E_RRCA (set_reg s2 REG_F ((r s2 ! REG_F) OR ((r s2 ! REG_A) AND (FLAG_3 OR FLAG_5)))))
      | B_RLA \<Rightarrow>
          (let old = r s ! REG_A;
               s1 = set_reg s REG_A (push_bit 1 (r s ! REG_A) OR ((r s ! REG_F) AND FLAG_C))
           in ran E_RLA (set_reg s1 REG_F
                (((r s1 ! REG_F) AND (FLAG_P OR FLAG_Z OR FLAG_S)) OR
                 ((r s1 ! REG_A) AND (FLAG_3 OR FLAG_5)) OR drop_bit 7 old)))
      | B_RRA \<Rightarrow>
          (let old = r s ! REG_A;
               s1 = set_reg s REG_A (drop_bit 1 (r s ! REG_A) OR push_bit 7 (r s ! REG_F))
           in ran E_RRA (set_reg s1 REG_F
                (((r s1 ! REG_F) AND (FLAG_P OR FLAG_Z OR FLAG_S)) OR
                 ((r s1 ! REG_A) AND (FLAG_3 OR FLAG_5)) OR (old AND FLAG_C))))
      | B_DAA \<Rightarrow> ran E_DAA (h_exec_daa T s)
      | B_CPL \<Rightarrow>
          (let s1 = set_reg s REG_A ((r s ! REG_A) XOR 0xFF)
           in ran E_CPL (set_reg s1 REG_F
                (((r s1 ! REG_F) AND (FLAG_C OR FLAG_P OR FLAG_Z OR FLAG_S)) OR
                 ((r s1 ! REG_A) AND (FLAG_3 OR FLAG_5)) OR FLAG_N OR FLAG_H)))
      | B_SCF \<Rightarrow>
          ran E_SCF (set_reg s REG_F
             (((r s ! REG_F) AND (FLAG_P OR FLAG_Z OR FLAG_S)) OR
              ((r s ! REG_A) AND (FLAG_3 OR FLAG_5)) OR FLAG_C))
      | B_CCF \<Rightarrow>
          (let c = (r s ! REG_F) AND FLAG_C;
               s1 = set_reg s REG_F
                      (((r s ! REG_F) AND (FLAG_P OR FLAG_Z OR FLAG_S)) OR
                       ((r s ! REG_A) AND (FLAG_3 OR FLAG_5)))
           in if c \<noteq> 0 then ran E_CCF (set_reg s1 REG_F ((r s1 ! REG_F) OR FLAG_H))
              else ran E_CCF (set_reg s1 REG_F ((r s1 ! REG_F) OR FLAG_C)))
      | B_NEG \<Rightarrow>
          (let old = r s ! REG_A;
               s1 = set_reg s REG_A 0
           in ran E_NEG (h_alu_sub T s1 old))
      | B_NOP \<Rightarrow> ran E_NOP s
      | B_CB \<Rightarrow>
          (let cb_op = (n - OP_CB_START) div 7
           in case arr_at CB_REG_H ((n - OP_CB_START) mod 7) of None \<Rightarrow> None | Some reg \<Rightarrow>
                Some (cb_switch T s cb_op reg))
      | B_SLL_A \<Rightarrow> ran E_SLL (cb_store (h_cb_sll T) s REG_A)
      | B_SLL_B \<Rightarrow>
          (case arr_at CB_REG_H ((n - OP_SLL_B_START) + 1) of None \<Rightarrow> None | Some reg \<Rightarrow>
             ran E_SLL (cb_store (h_cb_sll T) s reg))
      | B_BIT \<Rightarrow>
          (let idx = n - OP_BIT_START
           in case arr_at CB_REG_H (idx mod 7) of None \<Rightarrow> None | Some reg \<Rightarrow>
                ran (E_BIT (idx div 7)) (h_exec_bit s (r s ! reg) (idx div 7)))
      | B_RES \<Rightarrow>
          (let idx = n - OP_RES_START
           in case arr_at CB_REG_H (idx mod 7) of None \<Rightarrow> None | Some reg \<Rightarrow>
                ran (E_RES (idx div 7)) (set_reg s reg
                   (ucast ((ucast (r s ! reg) :: u32) AND NOT (push_bit (nat (idx div 7)) 1)))))
      | B_SET \<Rightarrow>
          (let idx = n - OP_SET_START
           in case arr_at CB_REG_H (idx mod 7) of None \<Rightarrow> None | Some reg \<Rightarrow>
                ran (E_SET (idx div 7)) (set_reg s reg
                   (ucast ((ucast (r s ! reg) :: u32) OR push_bit (nat (idx div 7)) 1))))
      | B_16INC \<Rightarrow>
          (let idx = n - OP_16INC_START;
               pair = h_pair_index B_16INC n;
               dec = (idx \<ge> 4);
               v = h_get_pair s pair
           in ran (E_16INC pair) (h_set_pair s pair (if dec then v - 1 else v + 1)))
      | B_ADD_HL \<Rightarrow>
          (let pair = h_pair_index B_ADD_HL n
           in ran (E_ADD_HL pair) (h_exec_add_hl s (h_get_pair s pair)))
      | B_EX_DE_HL \<Rightarrow>
          (let td = r s ! REG_D;
               te = r s ! REG_E;
               s1 = set_reg s REG_D (r s ! REG_H);
               s2 = set_reg s1 REG_E (r s1 ! REG_L);
               s3 = set_reg s2 REG_H td
           in ran E_EX_DE_HL (set_reg s3 REG_L te))
      | B_LD_SP_HL \<Rightarrow> ran E_LD_SP_HL (s\<lparr>sp := pair16 (r s ! REG_H) (r s ! REG_L)\<rparr>)
      | B_LD_RR_NN \<Rightarrow>
          (let pair = h_pair_index B_LD_RR_NN n
           in ran (E_LD_RR_NN pair) (h_set_pair s pair imm))
      | B_ADC_HL \<Rightarrow>
          (let pair = h_pair_index B_ADC_HL n
           in ran (E_ADC_HL pair) (h_exec_adc_hl s (h_get_pair s pair)))
      | B_SBC_HL \<Rightarrow>
          (let pair = h_pair_index B_SBC_HL n
           in ran (E_SBC_HL pair) (h_exec_sbc_hl s (h_get_pair s pair))))"

text \<open>The instruction executor with its ghost list: the first branch whose guard holds runs and
  returns; when none does, the function ends, no operation has run and the state is untouched.\<close>

definition h_exec_traced :: "Tables \<Rightarrow> Z80State \<Rightarrow> u16 \<Rightarrow> u16 \<Rightarrow> (engine list \<times> Z80State) option" where
  "h_exec_traced T s op imm =
     (case h_dispatch op of
        None \<Rightarrow> Some ([], s)
      | Some b \<Rightarrow> h_exec_family T s (uint op) imm b)"

text \<open>The full instruction executor: \<open>h_exec_traced\<close> without the ghost list.\<close>

definition h_exec_instruction :: "Tables \<Rightarrow> Z80State \<Rightarrow> u16 \<Rightarrow> u16 \<Rightarrow> Z80State option" where
  "h_exec_instruction T s op imm = map_option snd (h_exec_traced T s op imm)"

text \<open>The operations each branch of the source invokes.\<close>

definition runs :: "family \<Rightarrow> engine \<Rightarrow> bool" where
  "runs b e =
     (case e of
        E_LD_RR \<Rightarrow> b = B_LD_RR | E_LD_RN \<Rightarrow> b = B_LD_RN
      | E_ADD \<Rightarrow> b = B_ALU | E_ADC \<Rightarrow> b = B_ALU | E_SUB \<Rightarrow> b = B_ALU | E_SBC \<Rightarrow> b = B_ALU
      | E_AND \<Rightarrow> b = B_ALU | E_XOR \<Rightarrow> b = B_ALU | E_OR \<Rightarrow> b = B_ALU | E_CP \<Rightarrow> b = B_ALU
      | E_INC \<Rightarrow> b = B_INC | E_DEC \<Rightarrow> b = B_DEC
      | E_RLCA \<Rightarrow> b = B_RLCA | E_RRCA \<Rightarrow> b = B_RRCA | E_RLA \<Rightarrow> b = B_RLA | E_RRA \<Rightarrow> b = B_RRA
      | E_DAA \<Rightarrow> b = B_DAA | E_CPL \<Rightarrow> b = B_CPL | E_SCF \<Rightarrow> b = B_SCF | E_CCF \<Rightarrow> b = B_CCF
      | E_NEG \<Rightarrow> b = B_NEG | E_NOP \<Rightarrow> b = B_NOP
      | E_RLC \<Rightarrow> b = B_CB | E_RRC \<Rightarrow> b = B_CB | E_RL \<Rightarrow> b = B_CB | E_RR \<Rightarrow> b = B_CB
      | E_SLA \<Rightarrow> b = B_CB | E_SRA \<Rightarrow> b = B_CB | E_SRL \<Rightarrow> b = B_CB
      | E_SLL \<Rightarrow> b = B_SLL_A \<or> b = B_SLL_B
      | E_BIT k \<Rightarrow> b = B_BIT | E_RES k \<Rightarrow> b = B_RES | E_SET k \<Rightarrow> b = B_SET
      | E_16INC p \<Rightarrow> b = B_16INC | E_ADD_HL p \<Rightarrow> b = B_ADD_HL
      | E_EX_DE_HL \<Rightarrow> b = B_EX_DE_HL | E_LD_SP_HL \<Rightarrow> b = B_LD_SP_HL
      | E_LD_RR_NN p \<Rightarrow> b = B_LD_RR_NN | E_ADC_HL p \<Rightarrow> b = B_ADC_HL | E_SBC_HL p \<Rightarrow> b = B_SBC_HL)"

text \<open>The index an operation was given is one it has: a bit of a byte, one of the four pairs.\<close>

definition engine_args_ok :: "engine \<Rightarrow> bool" where
  "engine_args_ok e =
     (case e of
        E_BIT k \<Rightarrow> 0 \<le> k \<and> k < 8 | E_RES k \<Rightarrow> 0 \<le> k \<and> k < 8 | E_SET k \<Rightarrow> 0 \<le> k \<and> k < 8
      | E_16INC p \<Rightarrow> 0 \<le> p \<and> p < 4 | E_ADD_HL p \<Rightarrow> 0 \<le> p \<and> p < 4
      | E_LD_RR_NN p \<Rightarrow> 0 \<le> p \<and> p < 4 | E_ADC_HL p \<Rightarrow> 0 \<le> p \<and> p < 4
      | E_SBC_HL p \<Rightarrow> 0 \<le> p \<and> p < 4
      | _ \<Rightarrow> True)"

section \<open>Sequence executor and fingerprint\<close>

text \<open>\<open>for (int i = 0; i < n; i++) h_exec_instruction(s, ops[i], imms[i]);\<close> The reads of
  the two caller-supplied arrays go through \<open>arr_at\<close>.\<close>

function h_exec_seq_loop :: "Tables \<Rightarrow> u16 list \<Rightarrow> u16 list \<Rightarrow> int \<Rightarrow> int \<Rightarrow> Z80State \<Rightarrow> Z80State option" where
  "h_exec_seq_loop T ops imms n i s =
     (if i < n then
        (case arr_at ops i of None \<Rightarrow> None | Some op \<Rightarrow>
          (case arr_at imms i of None \<Rightarrow> None | Some imm \<Rightarrow>
            (case h_exec_instruction T s op imm of None \<Rightarrow> None | Some s1 \<Rightarrow>
               h_exec_seq_loop T ops imms n (i + 1) s1)))
      else Some s)"
  by pat_completeness auto
termination
  by (relation "measure (\<lambda>(T, ops, imms, n, i, s). nat (n - i))") auto

definition h_exec_seq :: "Tables \<Rightarrow> Z80State \<Rightarrow> u16 list \<Rightarrow> u16 list \<Rightarrow> int \<Rightarrow> Z80State option" where
  "h_exec_seq T s ops imms n = h_exec_seq_loop T ops imms n 0 s"

abbreviation (input) FP_SIZE :: int where "FP_SIZE \<equiv> 10"
abbreviation (input) NUM_VECTORS :: int where "NUM_VECTORS \<equiv> 8"
abbreviation (input) FP_LEN :: nat where "FP_LEN \<equiv> 80"

definition h_test_vectors :: "Z80State list" where
  "h_test_vectors =
     [\<lparr>r = [0x00, 0x00, 0x00, 0x00, 0x00, 0x00, 0x00, 0x00], sp = 0x0000\<rparr>,
      \<lparr>r = [0xFF, 0xFF, 0xFF, 0xFF, 0xFF, 0xFF, 0xFF, 0xFF], sp = 0xFFFF\<rparr>,
      \<lparr>r = [0x01, 0x00, 0x02, 0x03, 0x04, 0x05, 0x06, 0x07], sp = 0x1234\<rparr>,
      \<lparr>r = [0x80, 0x01, 0x40, 0x20, 0x10, 0x08, 0x04, 0x02], sp = 0x8000\<rparr>,
      \<lparr>r = [0x55, 0x00, 0xAA, 0x55, 0xAA, 0x55, 0xAA, 0x55], sp = 0x5555\<rparr>,
      \<lparr>r = [0xAA, 0x01, 0x55, 0xAA, 0x55, 0xAA, 0x55, 0xAA], sp = 0xAAAA\<rparr>,
      \<lparr>r = [0x0F, 0x00, 0xF0, 0x0F, 0xF0, 0x0F, 0xF0, 0x0F], sp = 0xFFFE\<rparr>,
      \<lparr>r = [0x7F, 0x01, 0x80, 0x7F, 0x80, 0x7F, 0x80, 0x7F], sp = 0x7FFF\<rparr>]"

text \<open>The ten stores \<open>fp[off+0] = s.r[REG_A]; ... fp[off+9] = (uint8_t)s.sp;\<close>\<close>

definition fp_store :: "u8 list \<Rightarrow> int \<Rightarrow> Z80State \<Rightarrow> u8 list" where
  "fp_store fp off s =
     fp[nat (off + 0) := r s ! REG_A, nat (off + 1) := r s ! REG_F,
        nat (off + 2) := r s ! REG_B, nat (off + 3) := r s ! REG_C,
        nat (off + 4) := r s ! REG_D, nat (off + 5) := r s ! REG_E,
        nat (off + 6) := r s ! REG_H, nat (off + 7) := r s ! REG_L,
        nat (off + 8) := ucast (drop_bit 8 (sp s)), nat (off + 9) := ucast (sp s)]"

text \<open>\<open>for (int v = 0; v < NUM_VECTORS; v++) { Z80State s = h_test_vectors[v]; ... }\<close>\<close>

function h_fingerprint_loop :: "Tables \<Rightarrow> u16 list \<Rightarrow> u16 list \<Rightarrow> int \<Rightarrow> int \<Rightarrow> u8 list \<Rightarrow> u8 list option" where
  "h_fingerprint_loop T ops imms n v fp =
     (if v < NUM_VECTORS then
        (case arr_at h_test_vectors v of None \<Rightarrow> None | Some s0 \<Rightarrow>
          (case h_exec_seq T s0 ops imms n of None \<Rightarrow> None | Some s \<Rightarrow>
             h_fingerprint_loop T ops imms n (v + 1) (fp_store fp (v * FP_SIZE) s)))
      else Some fp)"
  by pat_completeness auto
termination
  by (relation "measure (\<lambda>(T, ops, imms, n, v, fp). nat (NUM_VECTORS - v))") auto

definition h_fingerprint :: "Tables \<Rightarrow> u16 list \<Rightarrow> u16 list \<Rightarrow> int \<Rightarrow> u8 list \<Rightarrow> u8 list option" where
  "h_fingerprint T ops imms n fp = h_fingerprint_loop T ops imms n 0 fp"

text \<open>The register image of a state in the field order of the digest.\<close>

definition fp_image :: "Z80State \<Rightarrow> u8 list" where
  "fp_image s =
     [r s ! REG_A, r s ! REG_F, r s ! REG_B, r s ! REG_C, r s ! REG_D, r s ! REG_E,
      r s ! REG_H, r s ! REG_L, ucast (drop_bit 8 (sp s)), ucast (sp s)]"

text \<open>The opcode interval \<open>[lo, hi)\<close> of each branch, from the opcode range constants.\<close>

definition family_range :: "family \<Rightarrow> int \<times> int" where
  "family_range b =
     (case b of
        B_LD_RR \<Rightarrow> (0, 49) | B_LD_RN \<Rightarrow> (49, 56) | B_ALU \<Rightarrow> (56, 120)
      | B_INC \<Rightarrow> (120, 127) | B_DEC \<Rightarrow> (127, 134)
      | B_RLCA \<Rightarrow> (OP_RLCA, OP_RLCA + 1) | B_RRCA \<Rightarrow> (OP_RRCA, OP_RRCA + 1)
      | B_RLA \<Rightarrow> (OP_RLA, OP_RLA + 1) | B_RRA \<Rightarrow> (OP_RRA, OP_RRA + 1)
      | B_DAA \<Rightarrow> (OP_DAA, OP_DAA + 1) | B_CPL \<Rightarrow> (OP_CPL, OP_CPL + 1)
      | B_SCF \<Rightarrow> (OP_SCF, OP_SCF + 1) | B_CCF \<Rightarrow> (OP_CCF, OP_CCF + 1)
      | B_NEG \<Rightarrow> (OP_NEG, OP_NEG + 1) | B_NOP \<Rightarrow> (OP_NOP, OP_NOP + 1)
      | B_CB \<Rightarrow> (OP_CB_START, OP_SLL_A) | B_SLL_A \<Rightarrow> (OP_SLL_A, OP_SLL_B_START)
      | B_SLL_B \<Rightarrow> (OP_SLL_B_START, OP_BIT_START) | B_BIT \<Rightarrow> (OP_BIT_START, OP_RES_START)
      | B_RES \<Rightarrow> (OP_RES_START, OP_SET_START) | B_SET \<Rightarrow> (OP_SET_START, OP_16INC_START)
      | B_16INC \<Rightarrow> (OP_16INC_START, OP_ADD_HL_START) | B_ADD_HL \<Rightarrow> (OP_ADD_HL_START, OP_EX_DE_HL)
      | B_EX_DE_HL \<Rightarrow> (OP_EX_DE_HL, OP_LD_SP_HL) | B_LD_SP_HL \<Rightarrow> (OP_LD_SP_HL, OP_LD_RR_NN_START)
      | B_LD_RR_NN \<Rightarrow> (OP_LD_RR_NN_START, OP_ADC_HL_START)
      | B_ADC_HL \<Rightarrow> (OP_ADC_HL_START, OP_SBC_HL_START) | B_SBC_HL \<Rightarrow> (OP_SBC_HL_START, OP_COUNT))"

definition in_family :: "family \<Rightarrow> int \<Rightarrow> bool" where
  "in_family b n = (fst (family_range b) \<le> n \<and> n < snd (family_range b))"

text \<open>The entries the loop of \<open>init_tables\<close> stores at index \<open>n\<close>.\<close>

definition sz53_entry :: "nat \<Rightarrow> u8" where
  "sz53_entry n = (of_nat n :: u8) AND 0xA8"

definition parity_entry :: "nat \<Rightarrow> u8" where
  "parity_entry n = (if even (popcount8 (of_nat n)) then 0x04 else 0)"

declare parity_loop.simps [simp del]
declare init_tables_loop.simps [simp del]
declare h_exec_seq_loop.simps [simp del]
declare h_fingerprint_loop.simps [simp del]


section \<open>The flag table builder\<close>

lemma parity_loop_inv:
  "k \<le> 8 \<Longrightarrow> parity_loop k p j = p XOR of_bool (odd (length (filter (bit j) [0..<8 - k])))"
proof (induction k p j rule: parity_loop.induct)
  case (1 k p j)
  show ?case
  proof (cases "k < 8")
    case True
    then obtain m where m: "8 - k = Suc m" "8 - (k + 1) = m" by (cases "8 - k") auto
    have f: "length (filter (bit j) [0..<Suc m]) = of_bool (bit j 0) + length (filter (bit (drop_bit 1 j)) [0..<m])"
      by (simp add: upt_conv_Cons map_Suc_upt [symmetric] filter_map o_def bit_drop_bit_eq del: upt_Suc)
    have a: "j AND 1 = of_bool (bit j 0)" by (simp add: and_one_eq bit_0 mod_2_eq_odd)
    from True have "parity_loop k p j = parity_loop (k + 1) (p XOR (j AND 1)) (drop_bit 1 j)"
      by (subst parity_loop.simps) simp
    also have "\<dots> = (p XOR (j AND 1)) XOR of_bool (odd (length (filter (bit (drop_bit 1 j)) [0..<m])))"
      using "1.IH" True m by simp
    also have "\<dots> = p XOR of_bool (odd (length (filter (bit j) [0..<Suc m])))"
      unfolding f a by (cases "bit j 0"; cases "odd (length (filter (bit (drop_bit 1 j)) [0..<m]))"; simp add: xor.assoc)
    finally show ?thesis using m by simp
  next
    case False
    with 1 show ?thesis by (subst parity_loop.simps) simp
  qed
qed

lemma parity_loop_popcount: "parity_loop 0 0 j = of_bool (odd (popcount8 j))"
  using parity_loop_inv [of 0 0 j] by (simp add: popcount8_def)

lemma init_tables_body_wf: "wf_tables T \<Longrightarrow> wf_tables (init_tables_body i T)"
  by (simp add: wf_tables_def init_tables_body_def Let_def)

lemma init_tables_body_nth:
  assumes "wf_tables T" "i < 256"
  shows "h_sz53 (init_tables_body i T) ! n = (if n = i then sz53_entry i else h_sz53 T ! n)"
    and "h_parity (init_tables_body i T) ! n = (if n = i then parity_entry i else h_parity T ! n)"
    and "h_sz53p (init_tables_body i T) ! n = (if n = i then sz53_entry i OR parity_entry i else h_sz53p T ! n)"
  using assms
  by (auto simp add: wf_tables_def init_tables_body_def Let_def sz53_entry_def parity_entry_def
      parity_loop_popcount nth_list_update)

lemma init_tables_loop_inv:
  "wf_tables T \<Longrightarrow> i \<le> 256 \<Longrightarrow>
     wf_tables (init_tables_loop i T) \<and>
     (\<forall>n<256. h_sz53 (init_tables_loop i T) ! n = (if i \<le> n then sz53_entry n else h_sz53 T ! n) \<and>
              h_parity (init_tables_loop i T) ! n = (if i \<le> n then parity_entry n else h_parity T ! n) \<and>
              h_sz53p (init_tables_loop i T) ! n = (if i \<le> n then sz53_entry n OR parity_entry n else h_sz53p T ! n))"
proof (induction i T rule: init_tables_loop.induct)
  case (1 i T)
  show ?case
  proof (cases "i < 256")
    case True
    have step: "init_tables_loop i T = init_tables_loop (i + 1) (init_tables_body i T)"
      using True by (subst init_tables_loop.simps) simp
    have IH: "wf_tables (init_tables_loop (i + 1) (init_tables_body i T)) \<and>
     (\<forall>n<256. h_sz53 (init_tables_loop (i + 1) (init_tables_body i T)) ! n = (if i + 1 \<le> n then sz53_entry n else h_sz53 (init_tables_body i T) ! n) \<and>
              h_parity (init_tables_loop (i + 1) (init_tables_body i T)) ! n = (if i + 1 \<le> n then parity_entry n else h_parity (init_tables_body i T) ! n) \<and>
              h_sz53p (init_tables_loop (i + 1) (init_tables_body i T)) ! n = (if i + 1 \<le> n then sz53_entry n OR parity_entry n else h_sz53p (init_tables_body i T) ! n))"
      using "1.IH" [OF True init_tables_body_wf [OF "1.prems"(1)]] True by simp
    have wfb: "wf_tables T" by (rule "1.prems"(1))
    have "\<And>n. n < 256 \<Longrightarrow>
              h_sz53 (init_tables_loop i T) ! n = (if i \<le> n then sz53_entry n else h_sz53 T ! n) \<and>
              h_parity (init_tables_loop i T) ! n = (if i \<le> n then parity_entry n else h_parity T ! n) \<and>
              h_sz53p (init_tables_loop i T) ! n = (if i \<le> n then sz53_entry n OR parity_entry n else h_sz53p T ! n)"
    proof -
      fix n :: nat assume n: "n < 256"
      consider "n < i" | "n = i" | "i + 1 \<le> n" by linarith
      then show "h_sz53 (init_tables_loop i T) ! n = (if i \<le> n then sz53_entry n else h_sz53 T ! n) \<and>
              h_parity (init_tables_loop i T) ! n = (if i \<le> n then parity_entry n else h_parity T ! n) \<and>
              h_sz53p (init_tables_loop i T) ! n = (if i \<le> n then sz53_entry n OR parity_entry n else h_sz53p T ! n)"
        unfolding step using IH n True by cases (simp_all add: init_tables_body_nth [OF wfb True])
    qed
    with IH show ?thesis unfolding step by blast
  next
    case False
    with 1 show ?thesis by (subst (1 2 3 4) init_tables_loop.simps) simp
  qed
qed

lemma init_tables_wf: "wf_tables T \<Longrightarrow> wf_tables (init_tables T)"
  using init_tables_loop_inv [of T 0] by (simp add: init_tables_def Let_def wf_tables_def)

lemma init_tables_sz53:
  "wf_tables T \<Longrightarrow> h_sz53 (init_tables T) ! unat (v :: u8) = (v AND 0xA8) OR (if v = 0 then 0x40 else 0)"
proof -
  assume wf: "wf_tables T"
  have lt: "unat v < 256" using unsigned_less [of v, where ?'a = nat] by simp
  from init_tables_loop_inv [OF wf, of 0] lt
  have l: "wf_tables (init_tables_loop 0 T)" "h_sz53 (init_tables_loop 0 T) ! unat v = sz53_entry (unat v)"
    by auto
  show ?thesis
    using l wf by (cases "v = 0") (auto simp add: init_tables_def Let_def wf_tables_def sz53_entry_def unat_eq_0 nth_list_update)
qed

lemma init_tables_parity:
  "wf_tables T \<Longrightarrow> h_parity (init_tables T) ! unat (v :: u8) = (if even (popcount8 v) then 0x04 else 0)"
proof -
  assume wf: "wf_tables T"
  have lt: "unat v < 256" using unsigned_less [of v, where ?'a = nat] by simp
  from init_tables_loop_inv [OF wf, of 0] lt
  have "h_parity (init_tables_loop 0 T) ! unat v = parity_entry (unat v)"
    by auto
  then show ?thesis
    by (simp add: init_tables_def Let_def parity_entry_def)
qed

lemma init_tables_sz53p:
  "wf_tables T \<Longrightarrow> h_sz53p (init_tables T) ! unat (v :: u8) =
     (v AND 0xA8) OR (if v = 0 then 0x40 else 0) OR (if even (popcount8 v) then 0x04 else 0)"
proof -
  assume wf: "wf_tables T"
  have lt: "unat v < 256" using unsigned_less [of v, where ?'a = nat] by simp
  from init_tables_loop_inv [OF wf, of 0] lt
  have l: "wf_tables (init_tables_loop 0 T)"
    "h_sz53p (init_tables_loop 0 T) ! unat v = sz53_entry (unat v) OR parity_entry (unat v)"
    by auto
  show ?thesis
    using l wf by (cases "v = 0")
      (auto simp add: init_tables_def Let_def wf_tables_def sz53_entry_def parity_entry_def unat_eq_0 nth_list_update ac_simps)
qed

lemma wf_static_tables: "wf_tables static_tables"
  by (simp add: wf_tables_def static_tables_def)

text \<open>Claim C5: once the table builder has run, for every byte \<open>v\<close> the entry \<open>SZ53[v]\<close> is
  \<open>v & 0xA8\<close> with the zero flag \<open>0x40\<close> added exactly when \<open>v = 0\<close>; \<open>Parity[v]\<close> is the parity
  flag when the number of one-bits of \<open>v\<close> is even and zero otherwise; and \<open>SZ53P[v]\<close> is
  \<open>SZ53[v] | Parity[v]\<close>. The prior contents of the three arrays do not matter.\<close>

theorem C5_flag_tables:
  assumes "wf_tables T"
  shows "h_sz53 (init_tables T) ! unat (v :: u8) = (v AND 0xA8) OR (if v = 0 then FLAG_Z else 0) \<and>
         h_parity (init_tables T) ! unat v = (if even (popcount8 v) then FLAG_P else 0) \<and>
         h_sz53p (init_tables T) ! unat v = h_sz53 (init_tables T) ! unat v OR h_parity (init_tables T) ! unat v"
  using assms by (simp add: init_tables_sz53 init_tables_parity init_tables_sz53p)

theorem C5_flag_tables_witness:
  "wf_tables static_tables \<and>
   h_sz53 (init_tables static_tables) ! unat (0xAB :: u8) = 0xA8 \<and>
   h_parity (init_tables static_tables) ! unat (0xAB :: u8) = 0 \<and>
   h_sz53p (init_tables static_tables) ! unat (0xAB :: u8) = 0xA8 \<and>
   h_sz53 (init_tables static_tables) ! unat (0 :: u8) = 0x40 \<and>
   h_sz53p (init_tables static_tables) ! unat (0 :: u8) = 0x44"
  using C5_flag_tables [OF wf_static_tables, of "0xAB"] C5_flag_tables [OF wf_static_tables, of 0]
  by (simp add: wf_static_tables popcount8_def upt_conv_Cons)


section \<open>The carry-trick lookup tables\<close>

subsection \<open>Integer division facts\<close>

lemma small_div:
  fixes x m :: int assumes "0 \<le> x" "x < 2 * m"
  shows "x div m = of_bool (m \<le> x)"
proof (cases "m \<le> x")
  case True
  have "x div m = 1"
  proof (rule int_div_pos_eq [where r = "x - m"])
    show "x = m * 1 + (x - m)" by simp
    show "0 \<le> x - m" using True by simp
    show "x - m < m" using assms by simp
  qed
  with True show ?thesis by (simp only: of_bool_eq if_True)
next
  case False
  have "x div m = 0"
  proof (rule div_pos_pos_trivial)
    show "0 \<le> x" by (rule assms)
    show "x < m" using False by simp
  qed
  with False show ?thesis by (simp only: of_bool_eq if_False)
qed

lemma div_sum:
  fixes A B m :: int assumes "0 < m"
  shows "(A + B) div m = A div m + B div m + of_bool (m \<le> A mod m + B mod m)"
proof -
  have a: "0 \<le> A mod m" "A mod m < m" using assms by (rule pos_mod_sign, rule pos_mod_bound)
  have b: "0 \<le> B mod m" "B mod m < m" using assms by (rule pos_mod_sign, rule pos_mod_bound)
  have "0 \<le> A mod m + B mod m" "A mod m + B mod m < 2 * m" using a b by linarith+
  then have s: "(A mod m + B mod m) div m = of_bool (m \<le> A mod m + B mod m)" by (rule small_div)
  have "(A + B) div m = A div m + B div m + (A mod m + B mod m) div m" by (rule div_add1_eq)
  then show ?thesis by (simp only: s)
qed

lemma div_diff:
  fixes A B m :: int assumes "0 < m"
  shows "(A - B) div m = A div m - B div m - of_bool (A mod m < B mod m)"
proof -
  define qa la qb lb where "qa = A div m" and "la = A mod m" and "qb = B div m" and "lb = B mod m"
  have a: "0 \<le> la" "la < m" unfolding la_def using assms by (rule pos_mod_sign, rule pos_mod_bound)
  have b: "0 \<le> lb" "lb < m" unfolding lb_def using assms by (rule pos_mod_sign, rule pos_mod_bound)
  have A: "A = m * qa + la" unfolding qa_def la_def by simp
  have B: "B = m * qb + lb" unfolding qb_def lb_def by simp
  have "(A - B) div m = qa - qb - of_bool (la < lb)"
  proof (cases "la < lb")
    case True
    have "(A - B) div m = qa - qb - 1"
    proof (rule int_div_pos_eq [where r = "la - lb + m"])
      show "A - B = m * (qa - qb - 1) + (la - lb + m)" unfolding A B by (simp add: algebra_simps)
      show "0 \<le> la - lb + m" using a b by linarith
      show "la - lb + m < m" using True by linarith
    qed
    with True show ?thesis by simp
  next
    case False
    have "(A - B) div m = qa - qb"
    proof (rule int_div_pos_eq [where r = "la - lb"])
      show "A - B = m * (qa - qb) + (la - lb)" unfolding A B by (simp add: algebra_simps)
      show "0 \<le> la - lb" using False by linarith
      show "la - lb < m" using a b by linarith
    qed
    with False show ?thesis by simp
  qed
  then show ?thesis unfolding qa_def la_def qb_def lb_def .
qed

lemma mod_double:
  fixes A m :: int assumes "0 < m"
  shows "A mod (2 * m) = m * of_bool (odd (A div m)) + A mod m"
proof -
  have "A mod (m * 2) = m * (A div m mod 2) + A mod m" by (rule zmod_zmult2_eq) simp
  moreover have "A div m mod 2 = of_bool (odd (A div m))" by (rule mod_2_eq_odd)
  ultimately show ?thesis by (simp only: mult.commute [of 2 m])
qed

subsection \<open>The lookup index\<close>

lemma and_push_bit_1: "(a::'a::len word) AND push_bit n 1 = push_bit n (of_bool (bit a n))"
  by (rule bit_word_eqI) (auto simp add: bit_simps)

lemma and_0x88: "(a::'a::len word) AND 0x88 = push_bit 3 (of_bool (bit a 3)) OR push_bit 7 (of_bool (bit a 7))"
proof -
  have "(0x88::'a word) = push_bit 3 1 OR push_bit 7 1" by simp
  then show ?thesis
    by (simp only: bit.conj_disj_distrib and_push_bit_1)
qed

lemma lookup8_cases:
  "lookup8 a b res =
     of_bool (bit a 3) OR push_bit 1 (of_bool (bit b 3)) OR push_bit 2 (of_bool (bit res 3)) OR
     push_bit 4 (of_bool (bit a 7)) OR push_bit 5 (of_bool (bit b 7)) OR push_bit 6 (of_bool (bit res 7))"
  unfolding lookup8_def and_0x88
  by (cases "bit a 3"; cases "bit a 7"; cases "bit b 3"; cases "bit b 7"; cases "bit res 3"; cases "bit res 7"; simp)

lemma uint_u8_bounds: "0 \<le> uint (a::u8)" "uint (a::u8) < 256"
  using uint_lt2p [of a] by simp_all

lemma uint_ucast_8_16: "uint (ucast (a::u8) :: u16) = uint a"
  using uint_u8_bounds [of a] by (simp add: unsigned_ucast_eq take_bit_int_eq_self)

lemma bit_u8_odd: "k < 8 \<Longrightarrow> bit (a::u8) k \<longleftrightarrow> odd (uint a div 2 ^ k)"
  using bit_uint_iff [of a k] by (simp add: bit_iff_odd)

lemma bit_widened_add:
  "k < 16 \<Longrightarrow> bit ((ucast (a::u8) :: u16) + ucast (b::u8)) k \<longleftrightarrow> odd ((uint a + uint b) div 2 ^ k)"
proof -
  assume k: "k < 16"
  have "bit ((ucast a :: u16) + ucast b) k \<longleftrightarrow> bit (uint ((ucast a :: u16) + ucast b)) k"
    using k by (simp add: bit_uint_iff)
  also have "uint ((ucast a :: u16) + ucast b) = take_bit 16 (uint a + uint b)"
    by (simp add: uint_word_ariths uint_ucast_8_16 take_bit_eq_mod)
  also have "bit (take_bit 16 (uint a + uint b)) k \<longleftrightarrow> bit (uint a + uint b) k"
    using k by (simp add: bit_take_bit_iff)
  finally show ?thesis by (simp add: bit_iff_odd)
qed

lemma bit_widened_sub:
  "k < 16 \<Longrightarrow> bit ((ucast (a::u8) :: u16) - ucast (b::u8)) k \<longleftrightarrow> odd ((uint a - uint b) div 2 ^ k)"
proof -
  assume k: "k < 16"
  have "bit ((ucast a :: u16) - ucast b) k \<longleftrightarrow> bit (uint ((ucast a :: u16) - ucast b)) k"
    using k by (simp add: bit_uint_iff)
  also have "uint ((ucast a :: u16) - ucast b) = take_bit 16 (uint a - uint b)"
    by (simp add: uint_word_ariths uint_ucast_8_16 take_bit_eq_mod)
  also have "bit (take_bit 16 (uint a - uint b)) k \<longleftrightarrow> bit (uint a - uint b) k"
    using k by (simp add: bit_take_bit_iff)
  finally show ?thesis by (simp add: bit_iff_odd)
qed

lemma uint_and_0F: "uint ((a::u8) AND 0x0F) = uint a mod 16"
proof -
  have "(0x0F::u8) = mask 4" by (simp add: mask_eq_exp_minus_1)
  then have "a AND 0x0F = take_bit 4 a" by (simp only: take_bit_eq_mask)
  then have "uint (a AND 0x0F) = take_bit 4 (uint a)" by (simp only: unsigned_take_bit_eq)
  then show ?thesis by (simp only: take_bit_eq_mod) simp
qed

lemma sint_u8: "sint (a::u8) = uint a mod 128 - 128 * of_bool (odd (uint a div 128))"
proof -
  have "sint a = signed_take_bit 7 (uint a)" by (simp add: sint_uint)
  also have "\<dots> = take_bit 8 (uint a) - 256 * of_bool (bit (uint a) 7)"
    by (simp add: signed_take_bit_eq_take_bit_minus)
  also have "take_bit 8 (uint a) = uint a"
    using uint_u8_bounds [of a] by (simp add: take_bit_int_eq_self)
  also have "bit (uint a) 7 \<longleftrightarrow> odd (uint a div 128)" by (simp add: bit_iff_odd)
  also have "uint a = uint a mod (2 * 128)" using uint_u8_bounds [of a] by simp
  also have "\<dots> = 128 * of_bool (odd (uint a div 128)) + uint a mod 128"
    by (rule mod_double) simp
  finally show ?thesis by simp
qed

subsection \<open>The four carry-trick tables, read through the lookup index\<close>

lemma hc_add_index:
  "h_halfcarry_add ! unat (lookup8 a b res AND 0x07) =
     (if (bit a 3 \<and> bit b 3) \<or> ((bit a 3 \<or> bit b 3) \<and> \<not> bit res 3) then 0x10 else 0)"
  unfolding lookup8_cases
  by (cases "bit a 3"; cases "bit a 7"; cases "bit b 3"; cases "bit b 7"; cases "bit res 3"; cases "bit res 7";
      simp add: h_halfcarry_add_def)

lemma hc_sub_index:
  "h_halfcarry_sub ! unat (lookup8 a b res AND 0x07) =
     (if (\<not> bit a 3 \<and> bit b 3) \<or> ((bit a 3 = bit b 3) \<and> bit res 3) then 0x10 else 0)"
  unfolding lookup8_cases
  by (cases "bit a 3"; cases "bit a 7"; cases "bit b 3"; cases "bit b 7"; cases "bit res 3"; cases "bit res 7";
      simp add: h_halfcarry_sub_def)

lemma ov_add_index:
  "h_overflow_add ! unat (drop_bit 4 (lookup8 a b res)) =
     (if (bit a 7 = bit b 7) \<and> (bit res 7 \<noteq> bit a 7) then 0x04 else 0)"
  unfolding lookup8_cases
  by (cases "bit a 3"; cases "bit a 7"; cases "bit b 3"; cases "bit b 7"; cases "bit res 3"; cases "bit res 7";
      simp add: h_overflow_add_def)

lemma ov_sub_index:
  "h_overflow_sub ! unat (drop_bit 4 (lookup8 a b res)) =
     (if (bit a 7 \<noteq> bit b 7) \<and> (bit res 7 \<noteq> bit a 7) then 0x04 else 0)"
  unfolding lookup8_cases
  by (cases "bit a 3"; cases "bit a 7"; cases "bit b 3"; cases "bit b 7"; cases "bit res 3"; cases "bit res 7";
      simp add: h_overflow_sub_def)

subsection \<open>The truth tables against the arithmetic conditions\<close>

lemma hc_add_core:
  fixes la lb qa qb :: int
  assumes "0 \<le> la" "la < 8" "0 \<le> lb" "lb < 8"
  shows "((odd qa \<and> odd qb) \<or> ((odd qa \<or> odd qb) \<and> \<not> odd (qa + qb + of_bool (8 \<le> la + lb))))
         \<longleftrightarrow> 15 < 8 * of_bool (odd qa) + la + (8 * of_bool (odd qb) + lb)"
  using assms by (cases "odd qa"; cases "odd qb"; cases "8 \<le> la + lb"; simp)

lemma hc_sub_core:
  fixes la lb qa qb :: int
  assumes "0 \<le> la" "la < 8" "0 \<le> lb" "lb < 8"
  shows "((\<not> odd qa \<and> odd qb) \<or> ((odd qa = odd qb) \<and> odd (qa - qb - of_bool (la < lb))))
         \<longleftrightarrow> 8 * of_bool (odd qa) + la < 8 * of_bool (odd qb) + lb"
  using assms by (cases "odd qa"; cases "odd qb"; cases "la < lb"; simp)

lemma ov_add_core:
  fixes la lb qa qb :: int
  assumes "0 \<le> la" "la < 128" "0 \<le> lb" "lb < 128"
  shows "((odd qa = odd qb) \<and> (odd (qa + qb + of_bool (128 \<le> la + lb)) \<noteq> odd qa))
         \<longleftrightarrow> (la - 128 * of_bool (odd qa)) + (lb - 128 * of_bool (odd qb)) < - 128 \<or>
              127 < (la - 128 * of_bool (odd qa)) + (lb - 128 * of_bool (odd qb))"
  using assms by (cases "odd qa"; cases "odd qb"; cases "128 \<le> la + lb"; simp)

lemma ov_sub_core:
  fixes la lb qa qb :: int
  assumes "0 \<le> la" "la < 128" "0 \<le> lb" "lb < 128"
  shows "((odd qa \<noteq> odd qb) \<and> (odd (qa - qb - of_bool (la < lb)) \<noteq> odd qa))
         \<longleftrightarrow> (la - 128 * of_bool (odd qa)) - (lb - 128 * of_bool (odd qb)) < - 128 \<or>
              127 < (la - 128 * of_bool (odd qa)) - (lb - 128 * of_bool (odd qb))"
  using assms by (cases "odd qa"; cases "odd qb"; cases "la < lb"; simp)

lemma mod8_bounds: "0 \<le> (A::int) mod 8" "(A::int) mod 8 < 8"
  by simp_all

lemma mod128_bounds: "0 \<le> (A::int) mod 128" "(A::int) mod 128 < 128"
  by simp_all

lemma hc_add_entry:
  "h_halfcarry_add ! unat (lookup8 a b (ucast a + ucast b) AND 0x07) =
     (if 0x0F < uint (a AND 0x0F) + uint (b AND 0x0F) then 0x10 else 0)"
proof -
  have bits: "bit a 3 = odd (uint a div 8)" "bit b 3 = odd (uint b div 8)"
    "bit ((ucast a :: u16) + ucast b) 3 = odd ((uint a + uint b) div 8)"
    using bit_u8_odd [of 3 a] bit_u8_odd [of 3 b] bit_widened_add [of 3 a b] by simp_all
  have d: "(uint a + uint b) div 8 = uint a div 8 + uint b div 8 + of_bool (8 \<le> uint a mod 8 + uint b mod 8)"
    by (rule div_sum) simp
  have m: "uint a mod 16 = 8 * of_bool (odd (uint a div 8)) + uint a mod 8"
    "uint b mod 16 = 8 * of_bool (odd (uint b div 8)) + uint b mod 8"
    using mod_double [of 8 "uint a"] mod_double [of 8 "uint b"] by simp_all
  show ?thesis
    unfolding hc_add_index bits d uint_and_0F m
    by (subst hc_add_core [OF mod8_bounds mod8_bounds]) (rule refl)
qed

lemma hc_sub_entry:
  "h_halfcarry_sub ! unat (lookup8 a b (ucast a - ucast b) AND 0x07) =
     (if uint (a AND 0x0F) < uint (b AND 0x0F) then 0x10 else 0)"
proof -
  have bits: "bit a 3 = odd (uint a div 8)" "bit b 3 = odd (uint b div 8)"
    "bit ((ucast a :: u16) - ucast b) 3 = odd ((uint a - uint b) div 8)"
    using bit_u8_odd [of 3 a] bit_u8_odd [of 3 b] bit_widened_sub [of 3 a b] by simp_all
  have d: "(uint a - uint b) div 8 = uint a div 8 - uint b div 8 - of_bool (uint a mod 8 < uint b mod 8)"
    by (rule div_diff) simp
  have m: "uint a mod 16 = 8 * of_bool (odd (uint a div 8)) + uint a mod 8"
    "uint b mod 16 = 8 * of_bool (odd (uint b div 8)) + uint b mod 8"
    using mod_double [of 8 "uint a"] mod_double [of 8 "uint b"] by simp_all
  show ?thesis
    unfolding hc_sub_index bits d uint_and_0F m
    by (subst hc_sub_core [OF mod8_bounds mod8_bounds]) (rule refl)
qed

lemma ov_add_entry:
  "h_overflow_add ! unat (drop_bit 4 (lookup8 a b (ucast a + ucast b))) =
     (if sint a + sint b < - 128 \<or> 127 < sint a + sint b then 0x04 else 0)"
proof -
  have bits: "bit a 7 = odd (uint a div 128)" "bit b 7 = odd (uint b div 128)"
    "bit ((ucast a :: u16) + ucast b) 7 = odd ((uint a + uint b) div 128)"
    using bit_u8_odd [of 7 a] bit_u8_odd [of 7 b] bit_widened_add [of 7 a b] by simp_all
  have d: "(uint a + uint b) div 128 = uint a div 128 + uint b div 128 + of_bool (128 \<le> uint a mod 128 + uint b mod 128)"
    by (rule div_sum) simp
  show ?thesis
    unfolding ov_add_index bits d sint_u8
    by (subst ov_add_core [OF mod128_bounds mod128_bounds]) (rule refl)
qed

lemma ov_sub_entry:
  "h_overflow_sub ! unat (drop_bit 4 (lookup8 a b (ucast a - ucast b))) =
     (if sint a - sint b < - 128 \<or> 127 < sint a - sint b then 0x04 else 0)"
proof -
  have bits: "bit a 7 = odd (uint a div 128)" "bit b 7 = odd (uint b div 128)"
    "bit ((ucast a :: u16) - ucast b) 7 = odd ((uint a - uint b) div 128)"
    using bit_u8_odd [of 7 a] bit_u8_odd [of 7 b] bit_widened_sub [of 7 a b] by simp_all
  have d: "(uint a - uint b) div 128 = uint a div 128 - uint b div 128 - of_bool (uint a mod 128 < uint b mod 128)"
    by (rule div_diff) simp
  show ?thesis
    unfolding ov_sub_index bits d sint_u8
    by (subst ov_sub_core [OF mod128_bounds mod128_bounds]) (rule refl)
qed


section \<open>Flags of the 8-bit add and subtract\<close>

lemma h_alu_add_F:
  "wf_state s \<Longrightarrow> r (h_alu_add T s b) ! REG_F =
     bsel_h (((ucast (r s ! REG_A) :: u16) + ucast b) AND 0x100 \<noteq> 0) FLAG_C 0 OR
     h_halfcarry_add ! unat (lookup8 (r s ! REG_A) b (ucast (r s ! REG_A) + ucast b) AND 0x07) OR
     h_overflow_add ! unat (drop_bit 4 (lookup8 (r s ! REG_A) b (ucast (r s ! REG_A) + ucast b))) OR
     h_sz53 T ! unat (ucast ((ucast (r s ! REG_A) :: u16) + ucast b) :: u8)"
  by (simp add: h_alu_add_def Let_def set_reg_def wf_state_def)

lemma h_alu_sub_F:
  "wf_state s \<Longrightarrow> r (h_alu_sub T s b) ! REG_F =
     bsel_h (((ucast (r s ! REG_A) :: u16) - ucast b) AND 0x100 \<noteq> 0) FLAG_C 0 OR FLAG_N OR
     h_halfcarry_sub ! unat (lookup8 (r s ! REG_A) b (ucast (r s ! REG_A) - ucast b) AND 0x07) OR
     h_overflow_sub ! unat (drop_bit 4 (lookup8 (r s ! REG_A) b (ucast (r s ! REG_A) - ucast b))) OR
     h_sz53 T ! unat (ucast ((ucast (r s ! REG_A) :: u16) - ucast b) :: u8)"
  by (simp add: h_alu_sub_def Let_def set_reg_def wf_state_def)

lemma h_alu_add_A:
  "wf_state s \<Longrightarrow> r (h_alu_add T s b) ! REG_A = ucast ((ucast (r s ! REG_A) :: u16) + ucast b)"
  by (simp add: h_alu_add_def Let_def set_reg_def wf_state_def)

lemma h_alu_sub_A:
  "wf_state s \<Longrightarrow> r (h_alu_sub T s b) ! REG_A = ucast ((ucast (r s ! REG_A) :: u16) - ucast b)"
  by (simp add: h_alu_sub_def Let_def set_reg_def wf_state_def)

lemma bit7_ucast_16_8: "bit (ucast (w::u16) :: u8) 7 = bit w 7"
  by (simp add: bit_ucast_iff)

text \<open>Claim C2: with the tables built, after \<open>h_alu_add\<close> on accumulator \<open>a\<close> and operand \<open>b\<close>
  the half-carry flag (bit 4 of F) is set iff \<open>(a & 0x0F) + (b & 0x0F) > 0x0F\<close> and the overflow
  flag (bit 2 of F) is set iff the signed sum leaves \<open>[-128, 127]\<close>, which is the case iff \<open>a\<close>
  and \<open>b\<close> have equal sign bits and the sign bit of the result differs; after \<open>h_alu_sub\<close> the
  half-carry flag is set iff \<open>(a & 0x0F) < (b & 0x0F)\<close> and the overflow flag is set iff the signed
  difference leaves \<open>[-128, 127]\<close>.\<close>

theorem C2_add_sub_flags:
  assumes "wf_tables T0" and "wf_state s"
  shows "(bit (r (h_alu_add (init_tables T0) s b) ! REG_F) 4 \<longleftrightarrow>
            0x0F < uint ((r s ! REG_A) AND 0x0F) + uint (b AND 0x0F)) \<and>
         (bit (r (h_alu_add (init_tables T0) s b) ! REG_F) 2 \<longleftrightarrow>
            sint (r s ! REG_A) + sint b < - 128 \<or> 127 < sint (r s ! REG_A) + sint b) \<and>
         (bit (r (h_alu_add (init_tables T0) s b) ! REG_F) 2 \<longleftrightarrow>
            bit (r s ! REG_A) 7 = bit b 7 \<and>
            bit (r (h_alu_add (init_tables T0) s b) ! REG_A) 7 \<noteq> bit (r s ! REG_A) 7) \<and>
         (bit (r (h_alu_sub (init_tables T0) s b) ! REG_F) 4 \<longleftrightarrow>
            uint ((r s ! REG_A) AND 0x0F) < uint (b AND 0x0F)) \<and>
         (bit (r (h_alu_sub (init_tables T0) s b) ! REG_F) 2 \<longleftrightarrow>
            sint (r s ! REG_A) - sint b < - 128 \<or> 127 < sint (r s ! REG_A) - sint b)"
proof -
  have sign: "(bit (r (h_alu_add (init_tables T0) s b) ! REG_F) 2 \<longleftrightarrow>
            bit (r s ! REG_A) 7 = bit b 7 \<and>
            bit (r (h_alu_add (init_tables T0) s b) ! REG_A) 7 \<noteq> bit (r s ! REG_A) 7)"
    unfolding h_alu_add_F [OF assms(2)] h_alu_add_A [OF assms(2)] bit7_ucast_16_8
      hc_add_entry ov_add_index init_tables_sz53 [OF assms(1)]
    by (simp add: bit_or_iff bit_and_iff bsel_h_def)
  have arith: "(bit (r (h_alu_add (init_tables T0) s b) ! REG_F) 4 \<longleftrightarrow>
            0x0F < uint ((r s ! REG_A) AND 0x0F) + uint (b AND 0x0F)) \<and>
         (bit (r (h_alu_add (init_tables T0) s b) ! REG_F) 2 \<longleftrightarrow>
            sint (r s ! REG_A) + sint b < - 128 \<or> 127 < sint (r s ! REG_A) + sint b) \<and>
         (bit (r (h_alu_sub (init_tables T0) s b) ! REG_F) 4 \<longleftrightarrow>
            uint ((r s ! REG_A) AND 0x0F) < uint (b AND 0x0F)) \<and>
         (bit (r (h_alu_sub (init_tables T0) s b) ! REG_F) 2 \<longleftrightarrow>
            sint (r s ! REG_A) - sint b < - 128 \<or> 127 < sint (r s ! REG_A) - sint b)"
    unfolding h_alu_add_F [OF assms(2)] h_alu_sub_F [OF assms(2)]
      hc_add_entry hc_sub_entry ov_add_entry ov_sub_entry init_tables_sz53 [OF assms(1)]
    by (simp add: bit_or_iff bit_and_iff bsel_h_def)
  from sign arith show ?thesis by blast
qed

theorem C2_add_sub_flags_witness:
  "wf_tables static_tables \<and> wf_state \<lparr>r = [0x7F, 0, 0, 0, 0, 0, 0, 0], sp = 0\<rparr> \<and>
   bit (r (h_alu_add (init_tables static_tables) \<lparr>r = [0x7F, 0, 0, 0, 0, 0, 0, 0], sp = 0\<rparr> 1) ! REG_F) 4 \<and>
   bit (r (h_alu_add (init_tables static_tables) \<lparr>r = [0x7F, 0, 0, 0, 0, 0, 0, 0], sp = 0\<rparr> 1) ! REG_F) 2 \<and>
   \<not> bit (r (h_alu_sub (init_tables static_tables) \<lparr>r = [0x7F, 0, 0, 0, 0, 0, 0, 0], sp = 0\<rparr> 1) ! REG_F) 4 \<and>
   \<not> bit (r (h_alu_sub (init_tables static_tables) \<lparr>r = [0x7F, 0, 0, 0, 0, 0, 0, 0], sp = 0\<rparr> 1) ! REG_F) 2"
proof -
  have wfs: "wf_state \<lparr>r = [0x7F, 0, 0, 0, 0, 0, 0, 0], sp = 0\<rparr>" by (simp add: wf_state_def)
  show ?thesis
    using C2_add_sub_flags [OF wf_static_tables wfs, of 1] wfs wf_static_tables by simp
qed


section \<open>The dispatcher as a partition of the opcode range\<close>

lemma uint_u16_bounds: "0 \<le> uint (op::u16)" "uint (op::u16) < 65536"
  using uint_lt2p [of op] by simp_all

lemma h_exec_instruction_alt:
  "h_exec_instruction T s op imm =
     (case h_dispatch op of
        None \<Rightarrow> Some s
      | Some b \<Rightarrow> map_option snd (h_exec_family T s (uint op) imm b))"
  by (simp add: h_exec_instruction_def h_exec_traced_def split: option.split)

text \<open>Claim C10: an opcode at or above \<open>OP_COUNT = 394\<close>, up to 65535, passes every test of
  the dispatcher and leaves the whole state as it was.\<close>

theorem C10_out_of_range_inert:
  assumes "394 \<le> uint op"
  shows "h_exec_instruction T s op imm = Some s"
proof -
  have "h_dispatch op = None" using assms by (simp add: h_dispatch_def Let_def)
  then show ?thesis by (simp add: h_exec_instruction_alt)
qed

theorem C10_out_of_range_inert_witness:
  "394 \<le> uint (394 :: u16) \<and> 394 \<le> uint (65535 :: u16) \<and>
   h_exec_instruction built_tables (h_test_vectors ! 3) 394 0x1234 = Some (h_test_vectors ! 3) \<and>
   h_exec_instruction built_tables (h_test_vectors ! 3) 65535 0x1234 = Some (h_test_vectors ! 3)"
  using C10_out_of_range_inert [of 394 built_tables "h_test_vectors ! 3" "0x1234"]
    C10_out_of_range_inert [of 65535 built_tables "h_test_vectors ! 3" "0x1234"]
  by simp

lemma imm_consumers:
  "h_exec_family T s n i1 b = h_exec_family T s n i2 b"
  if "b \<noteq> B_LD_RN" "b \<noteq> B_LD_RR_NN" "b = B_ALU \<Longrightarrow> (n - 56) mod 8 < 7"
  using that by (cases b) (simp_all add: h_exec_family_def ran_def Let_def)

lemma dispatch_in:
  "in_family b (uint op) \<Longrightarrow> h_dispatch op = Some b"
  by (cases b) (simp_all add: h_dispatch_def Let_def in_family_def family_range_def)


lemma family_cover_low:
  fixes n :: int assumes "0 \<le> n" "n < 134"
  shows "\<exists>b. in_family b n"
proof -
  consider "n < 49" | "49 \<le> n \<and> n < 56" | "56 \<le> n \<and> n < 120" | "120 \<le> n \<and> n < 127" | "127 \<le> n"
    by linarith
  then show ?thesis
  proof cases
    case 1 with assms have "in_family B_LD_RR n" by (simp add: in_family_def family_range_def)
    then show ?thesis ..
  next
    case 2 then have "in_family B_LD_RN n" by (simp add: in_family_def family_range_def)
    then show ?thesis ..
  next
    case 3 then have "in_family B_ALU n" by (simp add: in_family_def family_range_def)
    then show ?thesis ..
  next
    case 4 then have "in_family B_INC n" by (simp add: in_family_def family_range_def)
    then show ?thesis ..
  next
    case 5 with assms have "in_family B_DEC n" by (simp add: in_family_def family_range_def)
    then show ?thesis ..
  qed
qed

lemma family_cover_misc1:
  fixes n :: int assumes "134 \<le> n" "n < 139"
  shows "\<exists>b. in_family b n"
proof -
  consider "n < 135" | "135 \<le> n \<and> n < 136" | "136 \<le> n \<and> n < 137" | "137 \<le> n \<and> n < 138" | "138 \<le> n"
    by linarith
  then show ?thesis
  proof cases
    case 1 with assms have "in_family B_RLCA n" by (simp add: in_family_def family_range_def)
    then show ?thesis ..
  next
    case 2 then have "in_family B_RRCA n" by (simp add: in_family_def family_range_def)
    then show ?thesis ..
  next
    case 3 then have "in_family B_RLA n" by (simp add: in_family_def family_range_def)
    then show ?thesis ..
  next
    case 4 then have "in_family B_RRA n" by (simp add: in_family_def family_range_def)
    then show ?thesis ..
  next
    case 5 with assms have "in_family B_DAA n" by (simp add: in_family_def family_range_def)
    then show ?thesis ..
  qed
qed

lemma family_cover_misc2:
  fixes n :: int assumes "139 \<le> n" "n < 144"
  shows "\<exists>b. in_family b n"
proof -
  consider "n < 140" | "140 \<le> n \<and> n < 141" | "141 \<le> n \<and> n < 142" | "142 \<le> n \<and> n < 143" | "143 \<le> n"
    by linarith
  then show ?thesis
  proof cases
    case 1 with assms have "in_family B_CPL n" by (simp add: in_family_def family_range_def)
    then show ?thesis ..
  next
    case 2 then have "in_family B_SCF n" by (simp add: in_family_def family_range_def)
    then show ?thesis ..
  next
    case 3 then have "in_family B_CCF n" by (simp add: in_family_def family_range_def)
    then show ?thesis ..
  next
    case 4 then have "in_family B_NEG n" by (simp add: in_family_def family_range_def)
    then show ?thesis ..
  next
    case 5 with assms have "in_family B_NOP n" by (simp add: in_family_def family_range_def)
    then show ?thesis ..
  qed
qed

lemma family_cover_cb:
  fixes n :: int assumes "144 \<le> n" "n < 368"
  shows "\<exists>b. in_family b n"
proof -
  consider "n < 193" | "n = 193" | "194 \<le> n \<and> n < 200" | "200 \<le> n \<and> n < 256"
    | "256 \<le> n \<and> n < 312" | "312 \<le> n"
    by linarith
  then show ?thesis
  proof cases
    case 1 with assms have "in_family B_CB n" by (simp add: in_family_def family_range_def)
    then show ?thesis ..
  next
    case 2 then have "in_family B_SLL_A n" by (simp add: in_family_def family_range_def)
    then show ?thesis ..
  next
    case 3 then have "in_family B_SLL_B n" by (simp add: in_family_def family_range_def)
    then show ?thesis ..
  next
    case 4 then have "in_family B_BIT n" by (simp add: in_family_def family_range_def)
    then show ?thesis ..
  next
    case 5 then have "in_family B_RES n" by (simp add: in_family_def family_range_def)
    then show ?thesis ..
  next
    case 6 with assms have "in_family B_SET n" by (simp add: in_family_def family_range_def)
    then show ?thesis ..
  qed
qed

lemma family_cover_16:
  fixes n :: int assumes "368 \<le> n" "n < 394"
  shows "\<exists>b. in_family b n"
proof -
  consider "n < 376" | "376 \<le> n \<and> n < 380" | "n = 380" | "n = 381" | "382 \<le> n \<and> n < 386"
    | "386 \<le> n \<and> n < 390" | "390 \<le> n"
    by linarith
  then show ?thesis
  proof cases
    case 1 with assms have "in_family B_16INC n" by (simp add: in_family_def family_range_def)
    then show ?thesis ..
  next
    case 2 then have "in_family B_ADD_HL n" by (simp add: in_family_def family_range_def)
    then show ?thesis ..
  next
    case 3 then have "in_family B_EX_DE_HL n" by (simp add: in_family_def family_range_def)
    then show ?thesis ..
  next
    case 4 then have "in_family B_LD_SP_HL n" by (simp add: in_family_def family_range_def)
    then show ?thesis ..
  next
    case 5 then have "in_family B_LD_RR_NN n" by (simp add: in_family_def family_range_def)
    then show ?thesis ..
  next
    case 6 then have "in_family B_ADC_HL n" by (simp add: in_family_def family_range_def)
    then show ?thesis ..
  next
    case 7 with assms have "in_family B_SBC_HL n" by (simp add: in_family_def family_range_def)
    then show ?thesis ..
  qed
qed

lemma family_cover:
  fixes n :: int assumes "0 \<le> n" "n < 394"
  shows "\<exists>b. in_family b n"
proof -
  consider "n < 134" | "134 \<le> n \<and> n < 139" | "139 \<le> n \<and> n < 144" | "144 \<le> n \<and> n < 368" | "368 \<le> n"
    by linarith
  then show ?thesis
    using assms family_cover_low [of n] family_cover_misc1 [of n] family_cover_misc2 [of n]
      family_cover_cb [of n] family_cover_16 [of n]
    by cases simp_all
qed

lemma table_lengths:
  "length LD_FULL_SRC_H = 49" "length LD_DST_H = 7" "length ALU_SRC_H = 7"
  "length CB_REG_H = 7" "length IMM_REG_H = 7" "length INCDEC_REG_H = 7"
  by (simp_all add: LD_FULL_SRC_H_def LD_DST_H_def ALU_SRC_H_def CB_REG_H_def IMM_REG_H_def INCDEC_REG_H_def)

lemma arr_at_Some: "0 \<le> i \<Longrightarrow> i < int (length t) \<Longrightarrow> arr_at t i = Some (t ! nat i)"
  by (simp add: arr_at_def)

lemma div7_bound: "0 \<le> (n::int) \<Longrightarrow> n < 49 \<Longrightarrow> 0 \<le> n div 7 \<and> n div 7 < 7"
proof -
  assume n: "0 \<le> n" "n < 49"
  then have "n div 7 \<le> 48 div 7" by (intro zdiv_mono1) simp_all
  then have "n div 7 < 7" by simp
  moreover have "0 \<le> n div 7" using n by (simp add: pos_imp_zdiv_nonneg_iff)
  ultimately show ?thesis by simp
qed

lemma pair_index_ok:
  "in_family b n \<Longrightarrow> 0 \<le> h_pair_index b n \<and> h_pair_index b n < 4"
  by (cases b) (simp_all add: in_family_def family_range_def h_pair_index_def)

lemma div_range:
  fixes x :: int
  assumes "0 \<le> x" "x \<le> hi" "0 < d"
  shows "0 \<le> x div d \<and> x div d \<le> hi div d"
proof -
  have "x div d \<le> hi div d" using assms(2,3) by (rule zdiv_mono1)
  moreover have "0 \<le> x div d" using assms(1,3) by (simp add: pos_imp_zdiv_nonneg_iff)
  ultimately show ?thesis by simp
qed

lemma switch_index_ok:
  assumes "in_family b n"
  shows "(b = B_ALU \<longrightarrow> 0 \<le> (n - 56) div 8 \<and> (n - 56) div 8 \<le> 7) \<and>
         (b = B_CB \<longrightarrow> 0 \<le> (n - OP_CB_START) div 7 \<and> (n - OP_CB_START) div 7 \<le> 6) \<and>
         (b = B_BIT \<longrightarrow> 0 \<le> (n - OP_BIT_START) div 7 \<and> (n - OP_BIT_START) div 7 \<le> 7) \<and>
         (b = B_RES \<longrightarrow> 0 \<le> (n - OP_RES_START) div 7 \<and> (n - OP_RES_START) div 7 \<le> 7) \<and>
         (b = B_SET \<longrightarrow> 0 \<le> (n - OP_SET_START) div 7 \<and> (n - OP_SET_START) div 7 \<le> 7)"
proof (intro conjI impI)
  assume "b = B_ALU"
  with assms have "0 \<le> n - 56" "n - 56 \<le> 63" by (simp_all add: in_family_def family_range_def)
  from div_range [OF this, of 8] show "0 \<le> (n - 56) div 8" "(n - 56) div 8 \<le> 7" by simp_all
next
  assume "b = B_CB"
  with assms have "0 \<le> n - 144" "n - 144 \<le> 48" by (simp_all add: in_family_def family_range_def)
  from div_range [OF this, of 7] show "0 \<le> (n - OP_CB_START) div 7" "(n - OP_CB_START) div 7 \<le> 6" by simp_all
next
  assume "b = B_BIT"
  with assms have "0 \<le> n - 200" "n - 200 \<le> 55" by (simp_all add: in_family_def family_range_def)
  from div_range [OF this, of 7] show "0 \<le> (n - OP_BIT_START) div 7" "(n - OP_BIT_START) div 7 \<le> 7" by simp_all
next
  assume "b = B_RES"
  with assms have "0 \<le> n - 256" "n - 256 \<le> 55" by (simp_all add: in_family_def family_range_def)
  from div_range [OF this, of 7] show "0 \<le> (n - OP_RES_START) div 7" "(n - OP_RES_START) div 7 \<le> 7" by simp_all
next
  assume "b = B_SET"
  with assms have "0 \<le> n - 312" "n - 312 \<le> 55" by (simp_all add: in_family_def family_range_def)
  from div_range [OF this, of 7] show "0 \<le> (n - OP_SET_START) div 7" "(n - OP_SET_START) div 7 \<le> 7" by simp_all
qed

lemma alu_switch_ran:
  assumes "0 \<le> k" "k \<le> 7"
  shows "\<exists>e s'. alu_switch T s k val = ([e], s') \<and> runs B_ALU e \<and> engine_args_ok e"
proof -
  from assms consider "k \<le> 3" | "4 \<le> k" by linarith
  then show ?thesis
  proof cases
    case 1
    with assms(1) consider "k = 0" | "k = 1" | "k = 2" | "k = 3" by linarith
    then show ?thesis by cases (simp_all add: alu_switch_def runs_def engine_args_ok_def)
  next
    case 2
    with assms(2) consider "k = 4" | "k = 5" | "k = 6" | "k = 7" by linarith
    then show ?thesis by cases (simp_all add: alu_switch_def runs_def engine_args_ok_def)
  qed
qed

lemma cb_switch_ran:
  assumes "0 \<le> k" "k \<le> 6"
  shows "\<exists>e s'. cb_switch T s k reg = ([e], s') \<and> runs B_CB e \<and> engine_args_ok e"
proof -
  from assms consider "k \<le> 3" | "4 \<le> k" by linarith
  then show ?thesis
  proof cases
    case 1
    with assms(1) consider "k = 0" | "k = 1" | "k = 2" | "k = 3" by linarith
    then show ?thesis by cases (simp_all add: cb_switch_def runs_def engine_args_ok_def)
  next
    case 2
    with assms(2) consider "k = 4" | "k = 5" | "k = 6" by linarith
    then show ?thesis by cases (simp_all add: cb_switch_def runs_def engine_args_ok_def)
  qed
qed

lemma exec_family_ran:
  assumes "in_family b n"
  shows "\<exists>e s'. h_exec_family T s n imm b = Some ([e], s') \<and> runs b e \<and> engine_args_ok e"
proof (cases b)
  case B_LD_RR
  with assms have n: "0 \<le> n" "n < 49" by (simp_all add: in_family_def family_range_def)
  show ?thesis
    using n div7_bound [OF n]
    by (simp add: B_LD_RR h_exec_family_def ran_def arr_at_Some table_lengths runs_def engine_args_ok_def)
next
  case B_ALU
  with assms have n: "56 \<le> n" "n < 120" by (simp_all add: in_family_def family_range_def)
  from switch_index_ok [OF assms] B_ALU have k: "0 \<le> (n - 56) div 8" "(n - 56) div 8 \<le> 7" by simp_all
  have m: "0 \<le> (n - 56) mod 8" by simp
  show ?thesis
  proof (cases "(n - 56) mod 8 < 7")
    case True
    with m have "arr_at ALU_SRC_H ((n - 56) mod 8) = Some (ALU_SRC_H ! nat ((n - 56) mod 8))"
      by (intro arr_at_Some) (simp_all add: table_lengths)
    with True alu_switch_ran [OF k, of T s "r s ! (ALU_SRC_H ! nat ((n - 56) mod 8))"]
    show ?thesis by (simp add: B_ALU h_exec_family_def Let_def)
  next
    case False
    with alu_switch_ran [OF k, of T s "ucast imm"]
    show ?thesis by (simp add: B_ALU h_exec_family_def Let_def)
  qed
next
  case B_CB
  with assms have n: "144 \<le> n" "n < 193" by (simp_all add: in_family_def family_range_def)
  from switch_index_ok [OF assms] B_CB
  have k: "0 \<le> (n - OP_CB_START) div 7" "(n - OP_CB_START) div 7 \<le> 6" by simp_all
  have "arr_at CB_REG_H ((n - OP_CB_START) mod 7) = Some (CB_REG_H ! nat ((n - OP_CB_START) mod 7))"
    by (intro arr_at_Some) (simp_all add: table_lengths)
  with cb_switch_ran [OF k, of T s "CB_REG_H ! nat ((n - OP_CB_START) mod 7)"]
  show ?thesis by (simp add: B_CB h_exec_family_def Let_def)
next
  case B_BIT
  from switch_index_ok [OF assms] B_BIT
  have k: "0 \<le> (n - OP_BIT_START) div 7" "(n - OP_BIT_START) div 7 \<le> 7" by simp_all
  have "arr_at CB_REG_H ((n - OP_BIT_START) mod 7) = Some (CB_REG_H ! nat ((n - OP_BIT_START) mod 7))"
    by (intro arr_at_Some) (simp_all add: table_lengths)
  with k show ?thesis
    by (simp add: B_BIT h_exec_family_def Let_def ran_def runs_def engine_args_ok_def)
next
  case B_RES
  from switch_index_ok [OF assms] B_RES
  have k: "0 \<le> (n - OP_RES_START) div 7" "(n - OP_RES_START) div 7 \<le> 7" by simp_all
  have "arr_at CB_REG_H ((n - OP_RES_START) mod 7) = Some (CB_REG_H ! nat ((n - OP_RES_START) mod 7))"
    by (intro arr_at_Some) (simp_all add: table_lengths)
  with k show ?thesis
    by (simp add: B_RES h_exec_family_def Let_def ran_def runs_def engine_args_ok_def)
next
  case B_SET
  from switch_index_ok [OF assms] B_SET
  have k: "0 \<le> (n - OP_SET_START) div 7" "(n - OP_SET_START) div 7 \<le> 7" by simp_all
  have "arr_at CB_REG_H ((n - OP_SET_START) mod 7) = Some (CB_REG_H ! nat ((n - OP_SET_START) mod 7))"
    by (intro arr_at_Some) (simp_all add: table_lengths)
  with k show ?thesis
    by (simp add: B_SET h_exec_family_def Let_def ran_def runs_def engine_args_ok_def)
next
  case B_16INC
  with pair_index_ok [OF assms] show ?thesis
    by (simp add: h_exec_family_def Let_def ran_def runs_def engine_args_ok_def)
next
  case B_ADD_HL
  with pair_index_ok [OF assms] show ?thesis
    by (simp add: h_exec_family_def Let_def ran_def runs_def engine_args_ok_def)
next
  case B_LD_RR_NN
  with pair_index_ok [OF assms] show ?thesis
    by (simp add: h_exec_family_def Let_def ran_def runs_def engine_args_ok_def)
next
  case B_ADC_HL
  with pair_index_ok [OF assms] show ?thesis
    by (simp add: h_exec_family_def Let_def ran_def runs_def engine_args_ok_def)
next
  case B_SBC_HL
  with pair_index_ok [OF assms] show ?thesis
    by (simp add: h_exec_family_def Let_def ran_def runs_def engine_args_ok_def)
qed (use assms in \<open>simp_all add: in_family_def family_range_def h_exec_family_def ran_def Let_def
      arr_at_Some table_lengths runs_def engine_args_ok_def\<close>)

lemma exec_family_Some:
  "in_family b n \<Longrightarrow> \<exists>s'. map_option snd (h_exec_family T s n imm b) = Some s'"
  using exec_family_ran [of b n T s imm] by auto

lemma dispatch_None: "394 \<le> uint op \<Longrightarrow> h_dispatch op = None"
  by (simp add: h_dispatch_def Let_def)

lemma dispatch_Some_in:
  assumes "h_dispatch op = Some b"
  shows "in_family b (uint op)"
proof (cases "uint op < 394")
  case True
  with uint_u16_bounds(1) [of op] obtain b' where b': "in_family b' (uint op)"
    using family_cover [of "uint op"] by blast
  from dispatch_in [OF b'] assms have "b' = b" by simp
  with b' show ?thesis by simp
next
  case False
  then have "h_dispatch op = None" by (intro dispatch_None) simp
  with assms show ?thesis by simp
qed

lemma exec_traced_out_of_range:
  "394 \<le> uint op \<Longrightarrow> h_exec_traced T s op imm = Some ([], s)"
  by (simp add: h_exec_traced_def dispatch_None)



text \<open>Claim C1, as stated, fails: opcode 63 (\<open>ADD A,n\<close>) lies outside 49..55 and 382..385 and its
  result depends on the immediate.\<close>

theorem C1_alu_immediate_counterexample:
  "h_exec_instruction built_tables \<lparr>r = [0, 0, 0, 0, 0, 0, 0, 0], sp = 0\<rparr> 63 0 \<noteq>
   h_exec_instruction built_tables \<lparr>r = [0, 0, 0, 0, 0, 0, 0, 0], sp = 0\<rparr> 63 1"
proof -
  have wfs: "wf_state \<lparr>r = [0, 0, 0, 0, 0, 0, 0, 0], sp = 0\<rparr>" by (simp add: wf_state_def)
  have e: "h_exec_instruction T s 63 i = Some (h_alu_add T s (ucast i))" for T s i
    by (simp add: h_exec_instruction_alt h_dispatch_def h_exec_family_def ran_def alu_switch_def)
  show ?thesis
  proof
    assume "h_exec_instruction built_tables \<lparr>r = [0, 0, 0, 0, 0, 0, 0, 0], sp = 0\<rparr> 63 0 =
      h_exec_instruction built_tables \<lparr>r = [0, 0, 0, 0, 0, 0, 0, 0], sp = 0\<rparr> 63 1"
    then have "r (h_alu_add built_tables \<lparr>r = [0, 0, 0, 0, 0, 0, 0, 0], sp = 0\<rparr> (ucast (0 :: u16))) ! REG_A =
      r (h_alu_add built_tables \<lparr>r = [0, 0, 0, 0, 0, 0, 0, 0], sp = 0\<rparr> (ucast (1 :: u16))) ! REG_A"
      unfolding e by simp
    then show False unfolding h_alu_add_A [OF wfs] by simp
  qed
qed

text \<open>Claim C1, amended: the immediate is ignored by every opcode outside the immediate loads
  49..55, the 16-bit immediate loads 382..385 and the ALU opcodes with an immediate operand,
  which are the opcodes in 56..119 with \<open>(opcode - 56) mod 8 = 7\<close>.\<close>

theorem C1_immediate_ignored:
  assumes "\<not> (49 \<le> uint op \<and> uint op \<le> 55)"
    and "\<not> (382 \<le> uint op \<and> uint op \<le> 385)"
    and "\<not> (56 \<le> uint op \<and> uint op \<le> 119 \<and> (uint op - 56) mod 8 = 7)"
  shows "h_exec_instruction T s op i1 = h_exec_instruction T s op i2"
proof (cases "h_dispatch op")
  case None
  then show ?thesis by (simp add: h_exec_instruction_alt)
next
  case (Some b)
  have b: "in_family b (uint op)" using Some by (rule dispatch_Some_in)
  have "h_exec_family T s (uint op) i1 b = h_exec_family T s (uint op) i2 b"
  proof (rule imm_consumers)
    show "b \<noteq> B_LD_RN" using b assms(1) by (auto simp add: in_family_def family_range_def)
    show "b \<noteq> B_LD_RR_NN" using b assms(2) by (auto simp add: in_family_def family_range_def)
    show "(uint op - 56) mod 8 < 7" if "b = B_ALU"
    proof -
      have "(uint op - 56) mod 8 < 8" by simp
      moreover have "(uint op - 56) mod 8 \<noteq> 7"
        using b assms(3) that by (auto simp add: in_family_def family_range_def)
      ultimately show ?thesis by linarith
    qed
  qed
  with Some show ?thesis by (simp add: h_exec_instruction_alt)
qed

theorem C1_immediate_ignored_witness:
  "\<not> (49 \<le> uint (56 :: u16) \<and> uint (56 :: u16) \<le> 55) \<and>
   \<not> (382 \<le> uint (56 :: u16) \<and> uint (56 :: u16) \<le> 385) \<and>
   \<not> (56 \<le> uint (56 :: u16) \<and> uint (56 :: u16) \<le> 119 \<and> (uint (56 :: u16) - 56) mod 8 = 7) \<and>
   h_exec_instruction built_tables (h_test_vectors ! 3) 56 0 =
   h_exec_instruction built_tables (h_test_vectors ! 3) 56 0xFFFF"
  using C1_immediate_ignored [of 56 built_tables "h_test_vectors ! 3" 0 "0xFFFF"] by simp


section \<open>Compare\<close>

lemma and_0x80_u16: "ucast ((res::u16) AND 0x80) = (if bit res 7 then 0x80 else 0 :: u8)"
proof -
  have "(0x80::u16) = push_bit 7 1" by simp
  then have "res AND 0x80 = push_bit 7 (of_bool (bit res 7))" by (simp only: and_push_bit_1)
  then show ?thesis by simp
qed

lemma h_alu_cp_F:
  "wf_state s \<Longrightarrow> r (h_alu_cp s v) ! REG_F =
     bsel_h (((ucast (r s ! REG_A) :: u16) - ucast v) AND 0x100 \<noteq> 0) FLAG_C
       (bsel_h ((ucast (r s ! REG_A) :: u16) - ucast v \<noteq> 0) 0 FLAG_Z) OR FLAG_N OR
     h_halfcarry_sub ! unat (lookup8 (r s ! REG_A) v (ucast (r s ! REG_A) - ucast v) AND 0x07) OR
     h_overflow_sub ! unat (drop_bit 4 (lookup8 (r s ! REG_A) v (ucast (r s ! REG_A) - ucast v))) OR
     (v AND (FLAG_3 OR FLAG_5)) OR ucast (((ucast (r s ! REG_A) :: u16) - ucast v) AND ucast FLAG_S)"
  by (simp add: h_alu_cp_def Let_def set_reg_def wf_state_def)

text \<open>Claim C6: \<open>h_alu_cp\<close> changes nothing but F: the accumulator, the other registers and the
  pair register keep their values; bits 3 and 5 of the new F are bits 3 and 5 of the operand; and
  when the operand equals the accumulator the zero flag is set, the carry flag is clear and the
  negate flag is set.\<close>

theorem C6_cp_flags:
  assumes "wf_state s"
  shows "h_alu_cp s v = set_reg s REG_F (r (h_alu_cp s v) ! REG_F) \<and>
         r (h_alu_cp s v) ! REG_A = r s ! REG_A \<and>
         sp (h_alu_cp s v) = sp s \<and>
         (r (h_alu_cp s v) ! REG_F) AND (FLAG_3 OR FLAG_5) = v AND (FLAG_3 OR FLAG_5) \<and>
         (v = r s ! REG_A \<longrightarrow>
            (r (h_alu_cp s v) ! REG_F) AND FLAG_Z = FLAG_Z \<and>
            (r (h_alu_cp s v) ! REG_F) AND FLAG_C = 0 \<and>
            (r (h_alu_cp s v) ! REG_F) AND FLAG_N = FLAG_N)"
proof -
  have frame: "h_alu_cp s v = set_reg s REG_F (r (h_alu_cp s v) ! REG_F)"
    "r (h_alu_cp s v) ! REG_A = r s ! REG_A" "sp (h_alu_cp s v) = sp s"
    using assms by (simp_all add: h_alu_cp_def Let_def set_reg_def wf_state_def)
  have b35: "(r (h_alu_cp s v) ! REG_F) AND (FLAG_3 OR FLAG_5) = v AND (FLAG_3 OR FLAG_5)"
    unfolding h_alu_cp_F [OF assms] hc_sub_index ov_sub_index
    by (simp add: bsel_h_def and_0x80_u16 bit.conj_disj_distrib2 and.assoc)
  have eq: "(r (h_alu_cp s v) ! REG_F) AND FLAG_Z = FLAG_Z \<and>
            (r (h_alu_cp s v) ! REG_F) AND FLAG_C = 0 \<and>
            (r (h_alu_cp s v) ! REG_F) AND FLAG_N = FLAG_N" if "v = r s ! REG_A"
    unfolding h_alu_cp_F [OF assms] hc_sub_index ov_sub_index that
    by (simp add: bsel_h_def bit.conj_disj_distrib2 and.assoc)
  from frame b35 eq show ?thesis by blast
qed


theorem C6_cp_flags_witness:
  "wf_state \<lparr>r = [0x3D, 0xFF, 2, 3, 4, 5, 6, 7], sp = 0x1234\<rparr> \<and>
   r (h_alu_cp \<lparr>r = [0x3D, 0xFF, 2, 3, 4, 5, 6, 7], sp = 0x1234\<rparr> 0x3D) ! REG_A = 0x3D \<and>
   sp (h_alu_cp \<lparr>r = [0x3D, 0xFF, 2, 3, 4, 5, 6, 7], sp = 0x1234\<rparr> 0x3D) = 0x1234 \<and>
   (r (h_alu_cp \<lparr>r = [0x3D, 0xFF, 2, 3, 4, 5, 6, 7], sp = 0x1234\<rparr> 0x3D) ! REG_F) AND (FLAG_3 OR FLAG_5) = 0x28 \<and>
   (r (h_alu_cp \<lparr>r = [0x3D, 0xFF, 2, 3, 4, 5, 6, 7], sp = 0x1234\<rparr> 0x3D) ! REG_F) AND FLAG_Z = FLAG_Z \<and>
   (r (h_alu_cp \<lparr>r = [0x3D, 0xFF, 2, 3, 4, 5, 6, 7], sp = 0x1234\<rparr> 0x3D) ! REG_F) AND FLAG_C = 0 \<and>
   (r (h_alu_cp \<lparr>r = [0x3D, 0xFF, 2, 3, 4, 5, 6, 7], sp = 0x1234\<rparr> 0x3D) ! REG_F) AND FLAG_N = FLAG_N"
proof -
  have wfs: "wf_state \<lparr>r = [0x3D, 0xFF, 2, 3, 4, 5, 6, 7], sp = 0x1234\<rparr>" by (simp add: wf_state_def)
  show ?thesis
    using C6_cp_flags [OF wfs, of "0x3D"] wfs by simp
qed


section \<open>8-bit increment and decrement\<close>

lemma h_alu_inc_regs:
  assumes "wf_state s" "reg < 8" "reg \<noteq> REG_F"
  shows "r (h_alu_inc T s reg) = (r s)[reg := r s ! reg + 1, REG_F := r (h_alu_inc T s reg) ! REG_F]"
    and "sp (h_alu_inc T s reg) = sp s"
    and "wf_state (h_alu_inc T s reg)"
    and "r (h_alu_inc T s reg) ! REG_F =
           ((r s ! REG_F) AND FLAG_C) OR bsel_h (r s ! reg + 1 = 0x80) FLAG_V 0 OR
           bsel_h ((r s ! reg + 1) AND 0x0F \<noteq> 0) 0 FLAG_H OR h_sz53 T ! unat (r s ! reg + 1)"
  using assms by (simp_all add: h_alu_inc_def Let_def set_reg_def wf_state_def)

lemma h_alu_dec_regs:
  assumes "wf_state s" "reg < 8" "reg \<noteq> REG_F"
  shows "r (h_alu_dec T s reg) = (r s)[reg := r s ! reg - 1, REG_F := r (h_alu_dec T s reg) ! REG_F]"
    and "sp (h_alu_dec T s reg) = sp s"
    and "wf_state (h_alu_dec T s reg)"
    and "r (h_alu_dec T s reg) ! REG_F =
           (((r s ! REG_F) AND FLAG_C) OR bsel_h ((r s ! reg) AND 0x0F \<noteq> 0) 0 FLAG_H OR FLAG_N) OR
           (bsel_h (r s ! reg - 1 = 0x7F) FLAG_V 0 OR h_sz53 T ! unat (r s ! reg - 1))"
  using assms by (simp_all add: h_alu_dec_def Let_def set_reg_def wf_state_def list_update_swap)

lemma sz53_no_carry:
  "wf_tables T0 \<Longrightarrow> (h_sz53 (init_tables T0) ! unat (v::u8)) AND FLAG_C = 0"
  by (simp add: init_tables_sz53 bit.conj_disj_distrib2 and.assoc)

lemma h_alu_inc_carry:
  assumes "wf_tables T0" "wf_state s" "reg < 8" "reg \<noteq> REG_F"
  shows "(r (h_alu_inc (init_tables T0) s reg) ! REG_F) AND FLAG_C = (r s ! REG_F) AND FLAG_C"
  unfolding h_alu_inc_regs(4) [OF assms(2-4)]
  by (simp add: bsel_h_def bit.conj_disj_distrib2 and.assoc sz53_no_carry [OF assms(1)])

lemma h_alu_dec_carry:
  assumes "wf_tables T0" "wf_state s" "reg < 8" "reg \<noteq> REG_F"
  shows "(r (h_alu_dec (init_tables T0) s reg) ! REG_F) AND FLAG_C = (r s ! REG_F) AND FLAG_C"
  unfolding h_alu_dec_regs(4) [OF assms(2-4)]
  by (simp add: bsel_h_def bit.conj_disj_distrib2 and.assoc sz53_no_carry [OF assms(1)])

lemma incdec_reg:
  "k < 7 \<Longrightarrow> arr_at INCDEC_REG_H (int k) = Some (INCDEC_REG_H ! k) \<and> INCDEC_REG_H ! k < 8 \<and> INCDEC_REG_H ! k \<noteq> REG_F"
proof -
  assume k: "k < 7"
  have "list_all (\<lambda>x. x < 8 \<and> x \<noteq> REG_F) INCDEC_REG_H"
    by (simp add: INCDEC_REG_H_def)
  with k have "INCDEC_REG_H ! k < 8 \<and> INCDEC_REG_H ! k \<noteq> REG_F"
    by (simp add: list_all_length table_lengths)
  moreover have "arr_at INCDEC_REG_H (int k) = Some (INCDEC_REG_H ! k)"
    using k by (simp add: arr_at_def table_lengths)
  ultimately show ?thesis by simp
qed

lemma exec_inc:
  assumes "k < 7" "uint (op::u16) = 120 + int k"
  shows "h_exec_instruction T s op imm = Some (h_alu_inc T s (INCDEC_REG_H ! k))"
proof -
  have "in_family B_INC (uint op)"
    unfolding assms(2) using assms(1) by (simp add: in_family_def family_range_def)
  then have "h_dispatch op = Some B_INC" by (rule dispatch_in)
  then show ?thesis
    using incdec_reg [OF assms(1)] by (simp add: h_exec_instruction_alt h_exec_family_def ran_def assms(2))
qed

lemma exec_dec:
  assumes "k < 7" "uint (op::u16) = 127 + int k"
  shows "h_exec_instruction T s op imm = Some (h_alu_dec T s (INCDEC_REG_H ! k))"
proof -
  have "in_family B_DEC (uint op)"
    unfolding assms(2) using assms(1) by (simp add: in_family_def family_range_def)
  then have "h_dispatch op = Some B_DEC" by (rule dispatch_in)
  then show ?thesis
    using incdec_reg [OF assms(1)] by (simp add: h_exec_instruction_alt h_exec_family_def ran_def assms(2))
qed

text \<open>Claim C7: for each of the seven registers INC and DEC address, INC followed by DEC on
  the same register gives back the register's value, changes no register other than F and
  leaves the pair register alone, and the carry bit of F after INC, after DEC alone, and after
  both is the carry bit from before.\<close>

theorem C7_inc_dec_roundtrip:
  assumes "wf_tables T0" and "wf_state s" and "k < 7"
    and "uint (op_inc::u16) = 120 + int k" and "uint (op_dec::u16) = 127 + int k"
  shows "\<exists>s1 s2 sd.
           h_exec_instruction (init_tables T0) s op_inc i1 = Some s1 \<and>
           h_exec_instruction (init_tables T0) s1 op_dec i2 = Some s2 \<and>
           h_exec_instruction (init_tables T0) s op_dec i2 = Some sd \<and>
           r s1 ! (INCDEC_REG_H ! k) = r s ! (INCDEC_REG_H ! k) + 1 \<and>
           r s2 ! (INCDEC_REG_H ! k) = r s ! (INCDEC_REG_H ! k) \<and>
           s2 = set_reg s REG_F (r s2 ! REG_F) \<and>
           (r s1 ! REG_F) AND FLAG_C = (r s ! REG_F) AND FLAG_C \<and>
           (r sd ! REG_F) AND FLAG_C = (r s ! REG_F) AND FLAG_C \<and>
           (r s2 ! REG_F) AND FLAG_C = (r s ! REG_F) AND FLAG_C"
proof -
  define reg where "reg = INCDEC_REG_H ! k"
  define T where "T = init_tables T0"
  have reg: "reg < 8" "reg \<noteq> REG_F" using incdec_reg [OF assms(3)] by (simp_all add: reg_def)
  define s1 where "s1 = h_alu_inc T s reg"
  define s2 where "s2 = h_alu_dec T s1 reg"
  define sd where "sd = h_alu_dec T s reg"
  have wf1: "wf_state s1" unfolding s1_def using assms(2) reg by (rule h_alu_inc_regs(3))
  have e1: "h_exec_instruction T s op_inc i1 = Some s1"
    unfolding s1_def reg_def using assms(3,4) by (rule exec_inc)
  have e2: "h_exec_instruction T s1 op_dec i2 = Some s2"
    unfolding s2_def reg_def using assms(3,5) by (rule exec_dec)
  have ed: "h_exec_instruction T s op_dec i2 = Some sd"
    unfolding sd_def reg_def using assms(3,5) by (rule exec_dec)
  have r1: "r s1 = (r s)[reg := r s ! reg + 1, REG_F := r s1 ! REG_F]" and sp1: "sp s1 = sp s"
    unfolding s1_def using assms(2) reg by (rule h_alu_inc_regs(1), rule h_alu_inc_regs(2))
  have r2: "r s2 = (r s1)[reg := r s1 ! reg - 1, REG_F := r s2 ! REG_F]" and sp2: "sp s2 = sp s1"
    unfolding s2_def using wf1 reg by (rule h_alu_dec_regs(1), rule h_alu_dec_regs(2))
  have len: "length (r s) = 8" using assms(2) by (simp add: wf_state_def)
  have v1: "r s1 ! reg = r s ! reg + 1"
    by (subst r1) (use reg len in simp)
  have v2: "r s2 ! reg = r s ! reg"
    by (subst r2) (use reg len wf1 v1 in \<open>simp add: wf_state_def\<close>)
  have frame: "s2 = set_reg s REG_F (r s2 ! REG_F)"
  proof -
    have "r s2 = (r s)[REG_F := r s2 ! REG_F]"
      by (subst r2, subst r1, subst v1) (use reg len in \<open>auto simp add: list_eq_iff_nth_eq nth_list_update\<close>)
    then show ?thesis using sp1 sp2 by (simp add: set_reg_def)
  qed
  have c1: "(r s1 ! REG_F) AND FLAG_C = (r s ! REG_F) AND FLAG_C"
    unfolding s1_def T_def using assms(1,2) reg by (rule h_alu_inc_carry)
  have cd: "(r sd ! REG_F) AND FLAG_C = (r s ! REG_F) AND FLAG_C"
    unfolding sd_def T_def using assms(1,2) reg by (rule h_alu_dec_carry)
  have "(r s2 ! REG_F) AND FLAG_C = (r s1 ! REG_F) AND FLAG_C"
    unfolding s2_def T_def using assms(1) wf1 reg by (rule h_alu_dec_carry)
  with c1 have c2: "(r s2 ! REG_F) AND FLAG_C = (r s ! REG_F) AND FLAG_C" by simp
  from e1 e2 ed v1 v2 frame c1 cd c2 show ?thesis
    unfolding T_def reg_def by blast
qed


lemma wf_test_vectors: "i < 8 \<Longrightarrow> wf_state (h_test_vectors ! i)"
proof -
  have "list_all wf_state h_test_vectors"
    by (simp add: h_test_vectors_def wf_state_def)
  moreover assume "i < 8"
  ultimately show ?thesis
    by (simp add: list_all_length h_test_vectors_def)
qed

theorem C7_inc_dec_roundtrip_witness:
  "wf_tables static_tables \<and> wf_state (h_test_vectors ! 1) \<and> (0::nat) < 7 \<and>
   uint (120 :: u16) = 120 + int 0 \<and> uint (127 :: u16) = 127 + int 0 \<and>
   (\<exists>s1 s2 sd.
      h_exec_instruction (init_tables static_tables) (h_test_vectors ! 1) 120 0 = Some s1 \<and>
      h_exec_instruction (init_tables static_tables) s1 127 0 = Some s2 \<and>
      h_exec_instruction (init_tables static_tables) (h_test_vectors ! 1) 127 0 = Some sd \<and>
      r s1 ! (INCDEC_REG_H ! 0) = r (h_test_vectors ! 1) ! (INCDEC_REG_H ! 0) + 1 \<and>
      r s2 ! (INCDEC_REG_H ! 0) = r (h_test_vectors ! 1) ! (INCDEC_REG_H ! 0) \<and>
      s2 = set_reg (h_test_vectors ! 1) REG_F (r s2 ! REG_F) \<and>
      (r s1 ! REG_F) AND FLAG_C = (r (h_test_vectors ! 1) ! REG_F) AND FLAG_C \<and>
      (r sd ! REG_F) AND FLAG_C = (r (h_test_vectors ! 1) ! REG_F) AND FLAG_C \<and>
      (r s2 ! REG_F) AND FLAG_C = (r (h_test_vectors ! 1) ! REG_F) AND FLAG_C)"
proof -
  have wfs: "wf_state (h_test_vectors ! 1)" by (rule wf_test_vectors) simp
  have k: "(0::nat) < 7" by simp
  have u1: "uint (120 :: u16) = 120 + int 0" by simp
  have u2: "uint (127 :: u16) = 127 + int 0" by simp
  from wf_static_tables wfs k u1 u2
    C7_inc_dec_roundtrip [OF wf_static_tables wfs k u1 u2, of 0 0]
  show ?thesis by blast
qed


section \<open>16-bit pair increment and decrement\<close>

lemma pair16_split: "pair16 (ucast (drop_bit 8 (v::u16))) (ucast v) = v"
  unfolding pair16_def
  by (rule bit_word_eqI) (auto simp add: bit_simps)

lemma get_set_pair:
  assumes "wf_state s" "0 \<le> p" "p < 4"
  shows "h_get_pair (h_set_pair s p v) p = v"
proof -
  from assms(2,3) consider "p = 0" | "p = 1" | "p = 2" | "p = 3" by linarith
  then show ?thesis using assms(1)
    by cases (simp_all add: h_get_pair_def h_set_pair_def set_reg_def wf_state_def pair16_split)
qed

lemma set_pair_frame:
  assumes "wf_state s" "0 \<le> p" "p < 4"
  shows "r (h_set_pair s p v) ! REG_A = r s ! REG_A"
    and "r (h_set_pair s p v) ! REG_F = r s ! REG_F"
    and "0 \<le> q \<Longrightarrow> q < 4 \<Longrightarrow> q \<noteq> p \<Longrightarrow> h_get_pair (h_set_pair s p v) q = h_get_pair s q"
    and "wf_state (h_set_pair s p v)"
proof -
  from assms(2,3) consider "p = 0" | "p = 1" | "p = 2" | "p = 3" by linarith
  note p = this
  show "r (h_set_pair s p v) ! REG_A = r s ! REG_A"
    using p assms(1) by cases (simp_all add: h_set_pair_def set_reg_def wf_state_def)
  show "r (h_set_pair s p v) ! REG_F = r s ! REG_F"
    using p assms(1) by cases (simp_all add: h_set_pair_def set_reg_def wf_state_def)
  show "wf_state (h_set_pair s p v)"
    using p assms(1) by cases (simp_all add: h_set_pair_def set_reg_def wf_state_def)
  show "h_get_pair (h_set_pair s p v) q = h_get_pair s q" if "0 \<le> q" "q < 4" "q \<noteq> p"
  proof -
    from that(1,2) consider "q = 0" | "q = 1" | "q = 2" | "q = 3" by linarith
    then show ?thesis
      using p assms(1) that(3)
      by cases (auto simp add: h_get_pair_def h_set_pair_def set_reg_def wf_state_def)
  qed
qed

lemma exec_16inc:
  assumes "0 \<le> p" "p < 4" "uint (op::u16) = 368 + p"
  shows "h_exec_instruction T s op imm = Some (h_set_pair s p (h_get_pair s p + 1))"
proof -
  have "in_family B_16INC (uint op)"
    unfolding assms(3) using assms(1,2) by (simp add: in_family_def family_range_def)
  then have "h_dispatch op = Some B_16INC" by (rule dispatch_in)
  moreover have "(uint op - 368) mod 4 = p" unfolding assms(3) using assms(1,2) by simp
  ultimately show ?thesis
    using assms by (simp add: h_exec_instruction_alt h_exec_family_def ran_def h_pair_index_def Let_def)
qed

lemma exec_16dec:
  assumes "0 \<le> p" "p < 4" "uint (op::u16) = 372 + p"
  shows "h_exec_instruction T s op imm = Some (h_set_pair s p (h_get_pair s p - 1))"
proof -
  have "in_family B_16INC (uint op)"
    unfolding assms(3) using assms(1,2) by (simp add: in_family_def family_range_def)
  then have "h_dispatch op = Some B_16INC" by (rule dispatch_in)
  moreover have "(uint op - 368) mod 4 = p"
  proof -
    have "(4 + p) mod 4 = p mod 4" by (simp add: mod_add_left_eq [symmetric])
    then show ?thesis unfolding assms(3) using assms(1,2) by simp
  qed
  ultimately show ?thesis
    using assms by (simp add: h_exec_instruction_alt h_exec_family_def ran_def h_pair_index_def Let_def)
qed


text \<open>Claim C8: for each register pair (0 = BC, 1 = DE, 2 = HL, 3 = SP) the pair increment
  opcode stores \<open>(value + 1) mod 65536\<close> and the pair decrement opcode \<open>(value - 1) mod 65536\<close>, so
  0xFFFF goes to 0x0000 and 0x0000 to 0xFFFF; F, the accumulator and the other three pairs keep
  their values.\<close>

theorem C8_pair_inc_dec:
  assumes "wf_state s" and "0 \<le> p" and "p < 4"
    and "uint (op_inc::u16) = OP_16INC_START + p" and "uint (op_dec::u16) = OP_16INC_START + 4 + p"
  shows "\<exists>si sd.
           h_exec_instruction T s op_inc i1 = Some si \<and>
           h_exec_instruction T s op_dec i2 = Some sd \<and>
           h_get_pair si p = h_get_pair s p + 1 \<and>
           uint (h_get_pair si p) = (uint (h_get_pair s p) + 1) mod 65536 \<and>
           h_get_pair sd p = h_get_pair s p - 1 \<and>
           uint (h_get_pair sd p) = (uint (h_get_pair s p) - 1) mod 65536 \<and>
           (h_get_pair s p = 0xFFFF \<longrightarrow> h_get_pair si p = 0x0000) \<and>
           (h_get_pair s p = 0x0000 \<longrightarrow> h_get_pair sd p = 0xFFFF) \<and>
           r si ! REG_F = r s ! REG_F \<and> r sd ! REG_F = r s ! REG_F \<and>
           r si ! REG_A = r s ! REG_A \<and> r sd ! REG_A = r s ! REG_A \<and>
           (\<forall>q. 0 \<le> q \<and> q < 4 \<and> q \<noteq> p \<longrightarrow>
              h_get_pair si q = h_get_pair s q \<and> h_get_pair sd q = h_get_pair s q)"
proof -
  define si where "si = h_set_pair s p (h_get_pair s p + 1)"
  define sd where "sd = h_set_pair s p (h_get_pair s p - 1)"
  have ei: "h_exec_instruction T s op_inc i1 = Some si"
    unfolding si_def using assms(2,3,4) by (intro exec_16inc) simp_all
  have ed: "h_exec_instruction T s op_dec i2 = Some sd"
    unfolding sd_def using assms(2,3,5) by (intro exec_16dec) simp_all
  have gi: "h_get_pair si p = h_get_pair s p + 1"
    unfolding si_def using assms(1-3) by (rule get_set_pair)
  have gd: "h_get_pair sd p = h_get_pair s p - 1"
    unfolding sd_def using assms(1-3) by (rule get_set_pair)
  have ui: "uint (h_get_pair si p) = (uint (h_get_pair s p) + 1) mod 65536"
    unfolding gi by (simp add: uint_word_ariths)
  have ud: "uint (h_get_pair sd p) = (uint (h_get_pair s p) - 1) mod 65536"
    unfolding gd by (simp add: uint_word_ariths)
  have wi: "h_get_pair s p = 0xFFFF \<longrightarrow> h_get_pair si p = 0x0000" unfolding gi by simp
  have wd: "h_get_pair s p = 0x0000 \<longrightarrow> h_get_pair sd p = 0xFFFF" unfolding gd by simp
  have f: "r si ! REG_F = r s ! REG_F" "r sd ! REG_F = r s ! REG_F"
    "r si ! REG_A = r s ! REG_A" "r sd ! REG_A = r s ! REG_A"
    unfolding si_def sd_def
    by (rule set_pair_frame(2) [OF assms(1-3)], rule set_pair_frame(2) [OF assms(1-3)],
        rule set_pair_frame(1) [OF assms(1-3)], rule set_pair_frame(1) [OF assms(1-3)])
  have o: "\<forall>q. 0 \<le> q \<and> q < 4 \<and> q \<noteq> p \<longrightarrow>
              h_get_pair si q = h_get_pair s q \<and> h_get_pair sd q = h_get_pair s q"
    unfolding si_def sd_def using assms(1-3) by (simp add: set_pair_frame)
  from ei ed gi gd ui ud wi wd f o show ?thesis by blast
qed

theorem C8_pair_inc_dec_witness:
  "wf_state (h_test_vectors ! 1) \<and> wf_state (h_test_vectors ! 0) \<and> (0::int) \<le> 0 \<and> (0::int) < 4 \<and>
   uint (368 :: u16) = OP_16INC_START + 0 \<and> uint (372 :: u16) = OP_16INC_START + 4 + 0 \<and>
   h_get_pair (h_test_vectors ! 1) 0 = 0xFFFF \<and> h_get_pair (h_test_vectors ! 0) 0 = 0x0000 \<and>
   (\<exists>si sd. h_exec_instruction built_tables (h_test_vectors ! 1) 368 0 = Some si \<and>
            h_get_pair si 0 = 0x0000 \<and> r si ! REG_F = r (h_test_vectors ! 1) ! REG_F \<and>
            h_exec_instruction built_tables (h_test_vectors ! 0) 372 0 = Some sd \<and>
            h_get_pair sd 0 = 0xFFFF \<and> r sd ! REG_F = r (h_test_vectors ! 0) ! REG_F)"
proof -
  have wf1: "wf_state (h_test_vectors ! 1)" and wf0: "wf_state (h_test_vectors ! 0)"
    by (rule wf_test_vectors, simp)+
  have p: "(0::int) \<le> 0" "(0::int) < 4" by simp_all
  have u: "uint (368 :: u16) = OP_16INC_START + 0" "uint (372 :: u16) = OP_16INC_START + 4 + 0" by simp_all
  have g: "h_get_pair (h_test_vectors ! 1) 0 = 0xFFFF" "h_get_pair (h_test_vectors ! 0) 0 = 0x0000"
    by (simp_all add: h_get_pair_def h_test_vectors_def pair16_def)
  from C8_pair_inc_dec [OF wf1 p u, of built_tables 0 0] g(1)
  obtain si where si: "h_exec_instruction built_tables (h_test_vectors ! 1) 368 0 = Some si"
    "h_get_pair si 0 = 0x0000" "r si ! REG_F = r (h_test_vectors ! 1) ! REG_F" by blast
  from C8_pair_inc_dec [OF wf0 p u, of built_tables 0 0] g(2)
  obtain sd where sd: "h_exec_instruction built_tables (h_test_vectors ! 0) 372 0 = Some sd"
    "h_get_pair sd 0 = 0xFFFF" "r sd ! REG_F = r (h_test_vectors ! 0) ! REG_F" by blast
  from wf1 wf0 p u g si sd show ?thesis by blast
qed


section \<open>The digest\<close>

lemma fp_store_nat:
  "fp_store fp (int m) s =
     fp[m := r s ! REG_A, m + 1 := r s ! REG_F, m + 2 := r s ! REG_B, m + 3 := r s ! REG_C,
        m + 4 := r s ! REG_D, m + 5 := r s ! REG_E, m + 6 := r s ! REG_H, m + 7 := r s ! REG_L,
        m + 8 := ucast (drop_bit 8 (sp s)), m + 9 := ucast (sp s)]"
  by (simp add: fp_store_def nat_add_distrib)

lemma length_fp_store [simp]: "length (fp_store fp off s) = length fp"
  by (simp add: fp_store_def)

lemma length_fp_image [simp]: "length (fp_image s) = 10"
  by (simp add: fp_image_def)

lemma take_fp_store: "take m (fp_store fp (int m) s) = take m fp"
  by (simp add: fp_store_nat)

lemma nth_fp_store:
  assumes "m + 10 \<le> length fp" "i < 10"
  shows "fp_store fp (int m) s ! (m + i) = fp_image s ! i"
proof -
  from assms(2) consider "i = 0" | "i = 1" | "i = 2" | "i = 3" | "i = 4" | "i < 10 \<and> 5 \<le> i" by linarith
  then show ?thesis
  proof cases
    case 6
    then consider "i = 5" | "i = 6" | "i = 7" | "i = 8" | "i = 9" by linarith
    then show ?thesis using assms(1) by cases (simp_all add: fp_store_nat fp_image_def)
  qed (use assms(1) in \<open>simp_all add: fp_store_nat fp_image_def\<close>)
qed

lemma segment_fp_store:
  assumes "m + 10 \<le> length fp"
  shows "take 10 (drop m (fp_store fp (int m) s)) = fp_image s"
proof (rule nth_equalityI)
  show "length (take 10 (drop m (fp_store fp (int m) s))) = length (fp_image s)"
    using assms by simp
next
  fix i assume "i < length (take 10 (drop m (fp_store fp (int m) s)))"
  then have i: "i < 10" by simp
  then have "take 10 (drop m (fp_store fp (int m) s)) ! i = fp_store fp (int m) s ! (m + i)"
    using assms by simp
  also have "\<dots> = fp_image s ! i" using assms i by (rule nth_fp_store)
  finally show "take 10 (drop m (fp_store fp (int m) s)) ! i = fp_image s ! i" .
qed

lemma take_segment:
  "take (m + 10) xs = take m xs @ take 10 (drop m xs)"
  by (simp add: take_add)


lemma length_test_vectors: "length h_test_vectors = 8"
  by (simp add: h_test_vectors_def)

lemma fingerprint_loop_end: "h_fingerprint_loop T ops imms n 8 fp = Some fp"
  by (subst h_fingerprint_loop.simps) simp

lemma fingerprint_loop_step:
  assumes "m < 8"
  shows "h_fingerprint_loop T ops imms n (int m) fp =
           (case h_exec_seq T (h_test_vectors ! m) ops imms n of
              None \<Rightarrow> None
            | Some s \<Rightarrow> h_fingerprint_loop T ops imms n (int (Suc m)) (fp_store fp (int (10 * m)) s))"
proof -
  have e: "int (Suc m) = int m + 1" "int (10 * m) = int m * 10" by simp_all
  show ?thesis
    unfolding e using assms
    by (subst h_fingerprint_loop.simps) (simp add: arr_at_def length_test_vectors)
qed

lemma fingerprint_loop_buffer:
  assumes "m \<le> 8"
  shows "\<forall>fp fp'. length fp = 80 \<longrightarrow> length fp' = 80 \<longrightarrow> take (10 * m) fp = take (10 * m) fp' \<longrightarrow>
           h_fingerprint_loop T ops imms n (int m) fp = h_fingerprint_loop T ops imms n (int m) fp'"
  using assms
proof (induction rule: inc_induct)
  case base
  show ?case by (simp add: fingerprint_loop_end)
next
  case (step k)
  show ?case
  proof (intro allI impI)
    fix fp fp' :: "u8 list"
    assume len: "length fp = 80" "length fp' = 80" and tk: "take (10 * k) fp = take (10 * k) fp'"
    show "h_fingerprint_loop T ops imms n (int k) fp = h_fingerprint_loop T ops imms n (int k) fp'"
    proof (cases "h_exec_seq T (h_test_vectors ! k) ops imms n")
      case None
      then show ?thesis using step.hyps(2) by (simp add: fingerprint_loop_step)
    next
      case (Some s)
      have b: "10 * k + 10 \<le> length fp" "10 * k + 10 \<le> length fp'" using len step.hyps(2) by simp_all
      have "take (10 * k + 10) (fp_store fp (int (10 * k)) s) =
            take (10 * k + 10) (fp_store fp' (int (10 * k)) s)"
        unfolding take_segment segment_fp_store [OF b(1)] segment_fp_store [OF b(2)] take_fp_store tk ..
      then have "take (10 * Suc k) (fp_store fp (int (10 * k)) s) =
            take (10 * Suc k) (fp_store fp' (int (10 * k)) s)" by (simp only: mult_Suc_right add.commute)
      moreover have "length (fp_store fp (int (10 * k)) s) = 80" "length (fp_store fp' (int (10 * k)) s) = 80"
        using len by simp_all
      ultimately
      have "h_fingerprint_loop T ops imms n (int (Suc k)) (fp_store fp (int (10 * k)) s) =
            h_fingerprint_loop T ops imms n (int (Suc k)) (fp_store fp' (int (10 * k)) s)"
        using step.IH by blast
      then show ?thesis using Some step.hyps(2) by (simp add: fingerprint_loop_step)
    qed
  qed
qed

lemma fingerprint_loop_result:
  assumes "m \<le> 8"
  shows "\<forall>fp out. length fp = 80 \<longrightarrow> h_fingerprint_loop T ops imms n (int m) fp = Some out \<longrightarrow>
           length out = 80 \<and> take (10 * m) out = take (10 * m) fp \<and>
           (\<forall>w. m \<le> w \<and> w < 8 \<longrightarrow>
              (\<exists>s. h_exec_seq T (h_test_vectors ! w) ops imms n = Some s \<and>
                   take 10 (drop (10 * w) out) = fp_image s))"
  using assms
proof (induction rule: inc_induct)
  case base
  show ?case by (auto simp add: fingerprint_loop_end)
next
  case (step k)
  show ?case
  proof (intro allI impI)
    fix fp out :: "u8 list"
    assume len: "length fp = 80" and run: "h_fingerprint_loop T ops imms n (int k) fp = Some out"
    from run step.hyps(2) obtain s where s: "h_exec_seq T (h_test_vectors ! k) ops imms n = Some s"
      and run': "h_fingerprint_loop T ops imms n (int (Suc k)) (fp_store fp (int (10 * k)) s) = Some out"
      by (auto simp add: fingerprint_loop_step split: option.splits)
    have b: "10 * k + 10 \<le> length fp" using len step.hyps(2) by simp
    have len1: "length (fp_store fp (int (10 * k)) s) = 80" using len by simp
    from step.IH have "length (fp_store fp (int (10 * k)) s) = 80 \<longrightarrow>
        h_fingerprint_loop T ops imms n (int (Suc k)) (fp_store fp (int (10 * k)) s) = Some out \<longrightarrow>
        length out = 80 \<and>
        take (10 * Suc k) out = take (10 * Suc k) (fp_store fp (int (10 * k)) s) \<and>
        (\<forall>w. Suc k \<le> w \<and> w < 8 \<longrightarrow>
              (\<exists>s. h_exec_seq T (h_test_vectors ! w) ops imms n = Some s \<and>
                   take 10 (drop (10 * w) out) = fp_image s))"
      by blast
    with len1 run'
    have out: "length out = 80"
      and tk: "take (10 * Suc k) out = take (10 * Suc k) (fp_store fp (int (10 * k)) s)"
      and rest: "\<forall>w. Suc k \<le> w \<and> w < 8 \<longrightarrow>
              (\<exists>s. h_exec_seq T (h_test_vectors ! w) ops imms n = Some s \<and>
                   take 10 (drop (10 * w) out) = fp_image s)"
      by blast+
    have "take (10 * k + 10) out = take (10 * k + 10) (fp_store fp (int (10 * k)) s)"
      using tk by (simp only: mult_Suc_right add.commute)
    then have tk': "take (10 * k + 10) out = take (10 * k) fp @ fp_image s"
      by (simp only: take_segment [of "10 * k" 
            "fp_store fp (int (10 * k)) s"] segment_fp_store [OF b] take_fp_store)
    have "take (10 * k) (take (10 * k + 10) out) = take (10 * k) fp"
      unfolding tk' using len step.hyps(2) by simp
    then have t1: "take (10 * k) out = take (10 * k) fp" by (simp add: min_def)
    have "take 10 (drop (10 * k) (take (10 * k + 10) out)) = fp_image s"
      unfolding tk' using len step.hyps(2) by simp
    then have t2: "take 10 (drop (10 * k) out) = fp_image s" by (simp add: drop_take)
    have "\<forall>w. k \<le> w \<and> w < 8 \<longrightarrow>
              (\<exists>s. h_exec_seq T (h_test_vectors ! w) ops imms n = Some s \<and>
                   take 10 (drop (10 * w) out) = fp_image s)"
    proof (intro allI impI)
      fix w assume w: "k \<le> w \<and> w < 8"
      show "\<exists>s. h_exec_seq T (h_test_vectors ! w) ops imms n = Some s \<and>
                   take 10 (drop (10 * w) out) = fp_image s"
      proof (cases "w = k")
        case True
        with s t2 show ?thesis by simp
      next
        case False
        with w have "Suc k \<le> w \<and> w < 8" by simp
        with rest show ?thesis by blast
      qed
    qed
    with out t1 show "length out = 80 \<and> take (10 * k) out = take (10 * k) fp \<and>
           (\<forall>w. k \<le> w \<and> w < 8 \<longrightarrow>
              (\<exists>s. h_exec_seq T (h_test_vectors ! w) ops imms n = Some s \<and>
                   take 10 (drop (10 * w) out) = fp_image s))" by blast
  qed
qed

lemma fingerprint_loop_total:
  assumes "m \<le> 8"
    and "\<forall>w<8. \<exists>s. h_exec_seq T (h_test_vectors ! w) ops imms n = Some s"
  shows "\<forall>fp. \<exists>out. h_fingerprint_loop T ops imms n (int m) fp = Some out"
  using assms(1)
proof (induction rule: inc_induct)
  case base
  show ?case by (simp add: fingerprint_loop_end)
next
  case (step k)
  from assms(2) step.hyps(2) obtain s where "h_exec_seq T (h_test_vectors ! k) ops imms n = Some s"
    by blast
  with step.IH step.hyps(2) show ?case by (simp add: fingerprint_loop_step)
qed


lemma exec_instruction_total: "\<exists>s'. h_exec_instruction T s op imm = Some s'"
proof (cases "h_dispatch op")
  case None
  then show ?thesis by (simp add: h_exec_instruction_alt)
next
  case (Some b)
  then have "in_family b (uint op)" by (rule dispatch_Some_in)
  from exec_family_Some [OF this, of T s imm] Some show ?thesis
    by (simp add: h_exec_instruction_alt)
qed

lemma arr_at_take: "0 \<le> i \<Longrightarrow> i < n \<Longrightarrow> arr_at (take (nat n) t) i = arr_at t i"
  by (auto simp add: arr_at_def)

lemma exec_seq_loop_take:
  "0 \<le> i \<Longrightarrow> h_exec_seq_loop T ops imms n i s =
             h_exec_seq_loop T (take (nat n) ops) (take (nat n) imms) n i s"
proof (induction T ops imms n i s rule: h_exec_seq_loop.induct)
  case (1 T ops imms n i s)
  show ?case
  proof (cases "i < n")
    case False
    then show ?thesis by (subst (1 2) h_exec_seq_loop.simps) simp
  next
    case True
    note a = arr_at_take [OF "1.prems" True]
    show ?thesis
    proof (cases "arr_at ops i")
      case None
      then show ?thesis using True by (subst (1 2) h_exec_seq_loop.simps) (simp add: a)
    next
      case op: (Some op)
      show ?thesis
      proof (cases "arr_at imms i")
        case None
        then show ?thesis using True op by (subst (1 2) h_exec_seq_loop.simps) (simp add: a)
      next
        case imm: (Some imm)
        show ?thesis
        proof (cases "h_exec_instruction T s op imm")
          case None
          then show ?thesis using True op imm by (subst (1 2) h_exec_seq_loop.simps) (simp add: a)
        next
          case (Some s1)
          have "h_exec_seq_loop T ops imms n (i + 1) s1 =
                h_exec_seq_loop T (take (nat n) ops) (take (nat n) imms) n (i + 1) s1"
            using "1.IH" [OF True op imm Some] "1.prems" by simp
          then show ?thesis using True op imm Some by (subst (1 2) h_exec_seq_loop.simps) (simp add: a)
        qed
      qed
    qed
  qed
qed

lemma exec_seq_take:
  assumes "take (nat n) ops = take (nat n) ops'" "take (nat n) imms = take (nat n) imms'"
  shows "h_exec_seq T s ops imms n = h_exec_seq T s ops' imms' n"
  unfolding h_exec_seq_def
  using exec_seq_loop_take [of 0 T ops imms n s] exec_seq_loop_take [of 0 T ops' imms' n s] assms
  by simp

lemma exec_seq_loop_total:
  "0 \<le> i \<Longrightarrow> n \<le> int (length ops) \<Longrightarrow> n \<le> int (length imms) \<Longrightarrow>
     \<exists>s'. h_exec_seq_loop T ops imms n i s = Some s'"
proof (induction T ops imms n i s rule: h_exec_seq_loop.induct)
  case (1 T ops imms n i s)
  show ?case
  proof (cases "i < n")
    case False
    then show ?thesis by (subst h_exec_seq_loop.simps) simp
  next
    case True
    have op: "arr_at ops i = Some (ops ! nat i)" and imm: "arr_at imms i = Some (imms ! nat i)"
      using True "1.prems" by (simp_all add: arr_at_def)
    from exec_instruction_total obtain s1 where s1: "h_exec_instruction T s (ops ! nat i) (imms ! nat i) = Some s1"
      by blast
    have "\<exists>s'. h_exec_seq_loop T ops imms n (i + 1) s1 = Some s'"
      using "1.IH" [OF True op imm s1] "1.prems" by simp
    then show ?thesis using True op imm s1 by (subst h_exec_seq_loop.simps) simp
  qed
qed

lemma exec_seq_total:
  "n \<le> int (length ops) \<Longrightarrow> n \<le> int (length imms) \<Longrightarrow> \<exists>s'. h_exec_seq T s ops imms n = Some s'"
  unfolding h_exec_seq_def by (rule exec_seq_loop_total) simp_all


lemma init_tables_nth:
  assumes "wf_tables T" "n < 256"
  shows "h_sz53 (init_tables T) ! n = h_sz53 built_tables ! n"
    and "h_sz53p (init_tables T) ! n = h_sz53p built_tables ! n"
    and "h_parity (init_tables T) ! n = h_parity built_tables ! n"
proof -
  have n: "n = unat (of_nat n :: u8)" using assms(2) by (simp add: unsigned_of_nat take_bit_nat_eq_self)
  show "h_sz53 (init_tables T) ! n = h_sz53 built_tables ! n"
    unfolding built_tables_def
    by (subst (1 2) n) (simp only: init_tables_sz53 [OF assms(1)] init_tables_sz53 [OF wf_static_tables])
  show "h_sz53p (init_tables T) ! n = h_sz53p built_tables ! n"
    unfolding built_tables_def
    by (subst (1 2) n) (simp only: init_tables_sz53p [OF assms(1)] init_tables_sz53p [OF wf_static_tables])
  show "h_parity (init_tables T) ! n = h_parity built_tables ! n"
    unfolding built_tables_def
    by (subst (1 2) n) (simp only: init_tables_parity [OF assms(1)] init_tables_parity [OF wf_static_tables])
qed

lemma init_tables_const:
  assumes "wf_tables T"
  shows "init_tables T = built_tables"
proof -
  have w: "wf_tables (init_tables T)" "wf_tables built_tables"
    unfolding built_tables_def using assms wf_static_tables by (simp_all add: init_tables_wf)
  have "h_sz53 (init_tables T) = h_sz53 built_tables"
    using w by (intro nth_equalityI) (simp_all add: wf_tables_def init_tables_nth [OF assms])
  moreover have "h_sz53p (init_tables T) = h_sz53p built_tables"
    using w by (intro nth_equalityI) (simp_all add: wf_tables_def init_tables_nth [OF assms])
  moreover have "h_parity (init_tables T) = h_parity built_tables"
    using w by (intro nth_equalityI) (simp_all add: wf_tables_def init_tables_nth [OF assms])
  ultimately show ?thesis by simp
qed

lemma exec_nop: "h_exec_instruction T s 143 imm = Some s"
  by (simp add: h_exec_instruction_alt h_dispatch_def h_exec_family_def ran_def)

lemma exec_seq_nop: "h_exec_seq T s [143] [imm] 1 = Some s"
  unfolding h_exec_seq_def
  by (subst h_exec_seq_loop.simps, simp add: arr_at_def exec_nop, subst h_exec_seq_loop.simps, simp)


lemma fingerprint_buffer:
  assumes "length fp = 80" "length fp' = 80"
  shows "h_fingerprint T ops imms n fp = h_fingerprint T ops imms n fp'"
proof -
  have "h_fingerprint_loop T ops imms n (int 0) fp = h_fingerprint_loop T ops imms n (int 0) fp'"
    by (rule fingerprint_loop_buffer [of 0, rule_format]) (simp_all add: assms)
  then show ?thesis by (simp add: h_fingerprint_def)
qed

lemma fingerprint_loop_seq:
  assumes "take (nat n) ops = take (nat n) ops'" "take (nat n) imms = take (nat n) imms'"
    and "m \<le> 8"
  shows "\<forall>fp. h_fingerprint_loop T ops imms n (int m) fp = h_fingerprint_loop T ops' imms' n (int m) fp"
  using assms(3)
proof (induction rule: inc_induct)
  case base
  show ?case by (simp add: fingerprint_loop_end)
next
  case (step k)
  have e: "h_exec_seq T (h_test_vectors ! k) ops imms n = h_exec_seq T (h_test_vectors ! k) ops' imms' n"
    using assms(1,2) by (rule exec_seq_take)
  show ?case
  proof
    fix fp
    show "h_fingerprint_loop T ops imms n (int k) fp = h_fingerprint_loop T ops' imms' n (int k) fp"
    proof (cases "h_exec_seq T (h_test_vectors ! k) ops' imms' n")
      case None
      then show ?thesis
        unfolding fingerprint_loop_step [OF step.hyps(2)] e by simp
    next
      case (Some s)
      have "h_fingerprint_loop T ops imms n (int (Suc k)) (fp_store fp (int (10 * k)) s) =
            h_fingerprint_loop T ops' imms' n (int (Suc k)) (fp_store fp (int (10 * k)) s)"
        using step.IH by (rule spec)
      then show ?thesis
        unfolding fingerprint_loop_step [OF step.hyps(2)] e Some by simp
    qed
  qed
qed

lemma fingerprint_seq:
  assumes "take (nat n) ops = take (nat n) ops'" "take (nat n) imms = take (nat n) imms'"
  shows "h_fingerprint T ops imms n fp = h_fingerprint T ops' imms' n fp"
proof -
  have "h_fingerprint_loop T ops imms n (int 0) fp = h_fingerprint_loop T ops' imms' n (int 0) fp"
    using fingerprint_loop_seq [OF assms, of 0 T] by simp
  then show ?thesis by (simp add: h_fingerprint_def)
qed

text \<open>Claim C9: NOP (opcode 143) returns the state it was given, whatever the tables and the
  immediate; and the digest of the sequence \<open>[NOP]\<close>, written into any 80-byte buffer, holds in
  its first ten bytes the register image of seed 0, which is ten zero bytes (and in segment
  \<open>w\<close> the image of seed \<open>w\<close>, for each of the 8 seeds).\<close>

theorem C9_nop_frame:
  "h_exec_instruction T s 143 imm = Some s \<and>
   (length fp = FP_LEN \<longrightarrow>
      (\<exists>out. h_fingerprint T [143] [imm] 1 fp = Some out \<and>
             take 10 out = fp_image (h_test_vectors ! 0) \<and>
             take 10 out = [0, 0, 0, 0, 0, 0, 0, 0, 0, 0] \<and>
             (\<forall>w<8. take 10 (drop (10 * w) out) = fp_image (h_test_vectors ! w))))"
proof (intro conjI impI)
  show "h_exec_instruction T s 143 imm = Some s" by (rule exec_nop)
next
  assume len: "length fp = FP_LEN"
  have all: "\<forall>w<8. \<exists>s. h_exec_seq T (h_test_vectors ! w) [143] [imm] 1 = Some s"
    by (simp add: exec_seq_nop)
  from fingerprint_loop_total [of 0, OF _ all] obtain out
    where out: "h_fingerprint_loop T [143] [imm] 1 (int 0) fp = Some out" by auto
  from fingerprint_loop_result [of 0 T "[143]" "[imm]" 1] len out
  have seg: "\<forall>w. 0 \<le> w \<and> w < 8 \<longrightarrow>
              (\<exists>s. h_exec_seq T (h_test_vectors ! w) [143] [imm] 1 = Some s \<and>
                   take 10 (drop (10 * w) out) = fp_image s)"
    by blast
  have segs: "\<forall>w<8. take 10 (drop (10 * w) out) = fp_image (h_test_vectors ! w)"
  proof (intro allI impI)
    fix w :: nat assume "w < 8"
    with seg obtain s' where "h_exec_seq T (h_test_vectors ! w) [143] [imm] 1 = Some s'"
      "take 10 (drop (10 * w) out) = fp_image s'" by blast
    then show "take 10 (drop (10 * w) out) = fp_image (h_test_vectors ! w)"
      by (simp add: exec_seq_nop)
  qed
  have "take 10 (drop (10 * 0) out) = fp_image (h_test_vectors ! 0)"
    by (rule segs [rule_format]) simp
  then have t0: "take 10 out = fp_image (h_test_vectors ! 0)" by simp
  have z: "fp_image (h_test_vectors ! 0) = [0, 0, 0, 0, 0, 0, 0, 0, 0, 0]"
    by (simp add: fp_image_def h_test_vectors_def)
  have out': "h_fingerprint T [143] [imm] 1 fp = Some out"
    using out by (simp add: h_fingerprint_def)
  have t0': "take 10 out = [0, 0, 0, 0, 0, 0, 0, 0, 0, 0]" using t0 z by (rule trans)
  from out' t0 t0' segs
  show "\<exists>out. h_fingerprint T [143] [imm] 1 fp = Some out \<and>
             take 10 out = fp_image (h_test_vectors ! 0) \<and>
             take 10 out = [0, 0, 0, 0, 0, 0, 0, 0, 0, 0] \<and>
             (\<forall>w<8. take 10 (drop (10 * w) out) = fp_image (h_test_vectors ! w))"
    by (intro exI conjI)
qed

theorem C9_nop_frame_witness:
  "h_exec_instruction built_tables (h_test_vectors ! 5) 143 0xBEEF = Some (h_test_vectors ! 5) \<and>
   length (replicate 80 (0xEE :: u8)) = FP_LEN \<and>
   (\<exists>out. h_fingerprint built_tables [143] [0xBEEF] 1 (replicate 80 0xEE) = Some out \<and>
          take 10 out = [0, 0, 0, 0, 0, 0, 0, 0, 0, 0])"
proof -
  have len: "length (replicate 80 (0xEE :: u8)) = FP_LEN" by simp
  from C9_nop_frame [of built_tables "h_test_vectors ! 5" "0xBEEF" "replicate 80 0xEE"] len
  show ?thesis by blast
qed


text \<open>Claim C4: the digest is a function of the instruction sequence alone. Two runs of
  \<open>h_fingerprint\<close>, each after the table builder has run (from whatever table contents), on
  arrays that agree on their first \<open>n\<close> opcodes and immediates and into any two 80-byte buffers,
  return the same result; a returned digest has 80 bytes and its segment \<open>w\<close> is the register
  image of seed \<open>w\<close> after the sequence; and when the arrays hold at least \<open>n\<close> entries a digest
  is returned. The function reads the tables, the seeds and the two arrays and returns only the
  buffer.\<close>

theorem C4_fingerprint_deterministic:
  assumes "wf_tables T0" and "wf_tables T0'"
    and "length fp = FP_LEN" and "length fp' = FP_LEN"
    and "take (nat n) ops = take (nat n) ops'" and "take (nat n) imms = take (nat n) imms'"
  shows "h_fingerprint (init_tables T0) ops imms n fp = h_fingerprint (init_tables T0') ops' imms' n fp' \<and>
         (\<forall>d. h_fingerprint (init_tables T0) ops imms n fp = Some d \<longrightarrow>
              length d = FP_LEN \<and>
              (\<forall>w<8. \<exists>s. h_exec_seq (init_tables T0) (h_test_vectors ! w) ops imms n = Some s \<and>
                          take 10 (drop (10 * w) d) = fp_image s)) \<and>
         (n \<le> int (length ops) \<and> n \<le> int (length imms) \<longrightarrow>
            (\<exists>d. h_fingerprint (init_tables T0) ops imms n fp = Some d))"
proof -
  have T: "init_tables T0 = built_tables" "init_tables T0' = built_tables"
    using assms(1,2) by (simp_all add: init_tables_const)
  have "h_fingerprint built_tables ops imms n fp = h_fingerprint built_tables ops' imms' n fp"
    using assms(5,6) by (rule fingerprint_seq)
  also have "\<dots> = h_fingerprint built_tables ops' imms' n fp'"
    using assms(3,4) by (rule fingerprint_buffer)
  finally have same: "h_fingerprint built_tables ops imms n fp = h_fingerprint built_tables ops' imms' n fp'" .
  have shape: "length d = FP_LEN \<and>
              (\<forall>w<8. \<exists>s. h_exec_seq built_tables (h_test_vectors ! w) ops imms n = Some s \<and>
                          take 10 (drop (10 * w) d) = fp_image s)"
    if "h_fingerprint built_tables ops imms n fp = Some d" for d
  proof -
    from that have "h_fingerprint_loop built_tables ops imms n (int 0) fp = Some d"
      by (simp add: h_fingerprint_def)
    with fingerprint_loop_result [of 0 built_tables ops imms n] assms(3)
    have "length d = 80 \<and> (\<forall>w. 0 \<le> w \<and> w < 8 \<longrightarrow>
              (\<exists>s. h_exec_seq built_tables (h_test_vectors ! w) ops imms n = Some s \<and>
                   take 10 (drop (10 * w) d) = fp_image s))" by blast
    then show ?thesis by simp
  qed
  have total: "\<exists>d. h_fingerprint built_tables ops imms n fp = Some d"
    if "n \<le> int (length ops) \<and> n \<le> int (length imms)"
  proof -
    from that have "\<forall>w<8. \<exists>s. h_exec_seq built_tables (h_test_vectors ! w) ops imms n = Some s"
      by (simp add: exec_seq_total)
    from fingerprint_loop_total [of 0, OF _ this]
    have "\<exists>d. h_fingerprint_loop built_tables ops imms n (int 0) fp = Some d" by simp
    then show ?thesis by (simp add: h_fingerprint_def)
  qed
  from same shape total show ?thesis unfolding T by blast
qed

theorem C4_fingerprint_deterministic_witness:
  "wf_tables static_tables \<and> wf_tables built_tables \<and>
   length (replicate 80 (0 :: u8)) = FP_LEN \<and> length (replicate 80 (0xFF :: u8)) = FP_LEN \<and>
   take (nat 2) [120, 63 :: u16] = take (nat 2) [120, 63, 999] \<and>
   take (nat 2) [0, 5 :: u16] = take (nat 2) [0, 5, 7] \<and>
   h_fingerprint (init_tables static_tables) [120, 63] [0, 5] 2 (replicate 80 0) =
     h_fingerprint (init_tables built_tables) [120, 63, 999] [0, 5, 7] 2 (replicate 80 0xFF) \<and>
   (\<exists>d. h_fingerprint (init_tables static_tables) [120, 63] [0, 5] 2 (replicate 80 0) = Some d \<and>
        length d = FP_LEN)"
proof -
  have wb: "wf_tables built_tables" unfolding built_tables_def using wf_static_tables by (rule init_tables_wf)
  have l: "length (replicate 80 (0 :: u8)) = FP_LEN" "length (replicate 80 (0xFF :: u8)) = FP_LEN" by simp_all
  have t: "take (nat 2) [120, 63 :: u16] = take (nat 2) [120, 63, 999]"
    "take (nat 2) [0, 5 :: u16] = take (nat 2) [0, 5, 7]" by simp_all
  have n: "(2::int) \<le> int (length [120, 63 :: u16]) \<and> (2::int) \<le> int (length [0, 5 :: u16])" by simp
  from C4_fingerprint_deterministic [OF wf_static_tables wb l t] n wf_static_tables wb l t
  show ?thesis by blast
qed

end
